theory Spec2Isabelle
  imports Main "HOL-Library.Sublist"
begin

section \<open>Python strings and the operations the script uses on them\<close>

text \<open>
  The script \<^verbatim>\<open>apply_tags.py\<close> reads one file into a Python \<^verbatim>\<open>str\<close>, rewrites it with
  \<^verbatim>\<open>re.sub\<close> and \<^verbatim>\<open>str.replace\<close>, and writes it back. A buffer is modelled as a
  \<^typ>\<open>string\<close>; one \<^typ>\<open>char\<close> stands for one code point below 256. The substring
  test \<^verbatim>\<open>a in b\<close> is \<^term>\<open>sublist a b\<close>, and \<^verbatim>\<open>b.startswith(a)\<close> is
  \<^term>\<open>prefix a b\<close>.
\<close>

text \<open>
  The class \<^verbatim>\<open>\s\<close> of a \<^verbatim>\<open>str\<close> pattern: Python's Unicode white space, which below 256 is
  the code points 9 to 13, 28 to 32, 133 and 160.
\<close>

definition is_space :: "char \<Rightarrow> bool" where
  "is_space c = (let n = (of_char c :: nat) in
     (9 \<le> n \<and> n \<le> 13) \<or> (28 \<le> n \<and> n \<le> 32) \<or> n = 133 \<or> n = 160)"

text \<open>
  A triple-quoted literal of the script is written as the list of its lines:
  \<open>unlines ls\<close> is the text in which every line of \<open>ls\<close> is followed by a newline.
\<close>

definition unlines :: "string list \<Rightarrow> string" where
  "unlines ls = concat (map (\<lambda>l. l @ ''\<newline>'') ls)"

text \<open>
  \<^verbatim>\<open>s.replace(old, new)\<close>: every occurrence of \<^verbatim>\<open>old\<close>, found from left to right without
  overlap, becomes \<^verbatim>\<open>new\<close>. For an empty \<^verbatim>\<open>old\<close> Python puts \<^verbatim>\<open>new\<close> before every
  character and at the end.
\<close>

function str_replace :: "string \<Rightarrow> string \<Rightarrow> string \<Rightarrow> string" where
  "str_replace old new [] = (if old = [] then new else [])"
| "str_replace old new (c # cs) =
     (if old = [] then new @ c # str_replace old new cs
      else if prefix old (c # cs) then new @ str_replace old new (drop (length old) (c # cs))
      else c # str_replace old new cs)"
  by pat_completeness auto
termination
  by (relation "measure (\<lambda>(old, new, s). length s)") auto

section \<open>The regular expressions of the script\<close>

text \<open>
  The script's patterns are sequences of four kinds of item: a literal text, the lazy
  \<^verbatim>\<open>.*?\<close> under \<^verbatim>\<open>re.DOTALL\<close> (any characters), the lazy \<^verbatim>\<open>.*?\<close> without that flag (any
  characters but a newline), and the greedy \<^verbatim>\<open>\s*\<close>. Python's matcher backtracks: a lazy
  item tries the shortest text first, a greedy one the longest.
\<close>

datatype item = Lit string | AnyLazy | DotLazy | SpaceStar

text \<open>
  Both repetitions take the rest of the pattern as a continuation \<open>k\<close> and return the text
  they consumed together with the continuation's result.
\<close>

fun lazy_star :: "(char \<Rightarrow> bool) \<Rightarrow> (string \<Rightarrow> 'a option) \<Rightarrow> string \<Rightarrow> (string \<times> 'a) option" where
  "lazy_star ok k [] = map_option (Pair []) (k [])"
| "lazy_star ok k (c # cs) =
     (case k (c # cs) of
        Some r \<Rightarrow> Some ([], r)
      | None \<Rightarrow> if ok c then map_option (\<lambda>(m, r). (c # m, r)) (lazy_star ok k cs) else None)"

fun greedy_star :: "(char \<Rightarrow> bool) \<Rightarrow> (string \<Rightarrow> 'a option) \<Rightarrow> string \<Rightarrow> (string \<times> 'a) option" where
  "greedy_star ok k [] = map_option (Pair []) (k [])"
| "greedy_star ok k (c # cs) =
     (if ok c then
        (case greedy_star ok k cs of
           Some (m, r) \<Rightarrow> Some (c # m, r)
         | None \<Rightarrow> map_option (Pair []) (k (c # cs)))
      else map_option (Pair []) (k (c # cs)))"

text \<open>
  \<open>match_items p s\<close> is \<^verbatim>\<open>re.match\<close>: the pattern matched at the start of \<open>s\<close>. It returns
  the text each item consumed, in order, and the unconsumed rest of \<open>s\<close>.
\<close>

primrec match_items :: "item list \<Rightarrow> string \<Rightarrow> (string list \<times> string) option" where
  "match_items [] s = Some ([], s)"
| "match_items (p # ps) s =
     (case p of
        Lit l \<Rightarrow>
          if prefix l s
          then map_option (\<lambda>(gs, r). (l # gs, r)) (match_items ps (drop (length l) s))
          else None
      | AnyLazy \<Rightarrow>
          map_option (\<lambda>(m, gs, r). (m # gs, r)) (lazy_star (\<lambda>c. True) (match_items ps) s)
      | DotLazy \<Rightarrow>
          map_option (\<lambda>(m, gs, r). (m # gs, r))
            (lazy_star (\<lambda>c. c \<noteq> CHR ''\<newline>'') (match_items ps) s)
      | SpaceStar \<Rightarrow>
          map_option (\<lambda>(m, gs, r). (m # gs, r)) (greedy_star is_space (match_items ps) s))"

text \<open>
  \<^verbatim>\<open>re.sub(p, repl, s)\<close>: scan from the left; where the pattern matches, emit the replacement
  and go on after the match, elsewhere copy one character. The replacement is a function of
  the texts of the items. A match that consumes nothing is replaced and the scan moves one
  character on (none of the script's patterns can match the empty text).
\<close>

function re_sub :: "item list \<Rightarrow> (string list \<Rightarrow> string) \<Rightarrow> string \<Rightarrow> string" where
  "re_sub p repl s =
     (case match_items p s of
        Some (gs, r) \<Rightarrow>
          if length r < length s then repl gs @ re_sub p repl r
          else (case s of [] \<Rightarrow> repl gs | c # cs \<Rightarrow> repl gs @ c # re_sub p repl cs)
      | None \<Rightarrow> (case s of [] \<Rightarrow> [] | c # cs \<Rightarrow> c # re_sub p repl cs))"
  by pat_completeness auto
termination
  by (relation "measure (\<lambda>(p, repl, s). length s)") auto

text \<open>\<^verbatim>\<open>re.search\<close>: the leftmost match, with the text before it.\<close>

fun re_search :: "item list \<Rightarrow> string \<Rightarrow> (string \<times> string list \<times> string) option" where
  "re_search p [] = map_option (Pair []) (match_items p [])"
| "re_search p (c # cs) =
     (case match_items p (c # cs) of
        Some m \<Rightarrow> Some ([], m)
      | None \<Rightarrow> map_option (\<lambda>(pre, m). (c # pre, m)) (re_search p cs))"

text \<open>\<^verbatim>\<open>match.group(0)\<close> and the text of the items \<open>i\<close> up to \<open>j - 1\<close> (one capture group).\<close>

definition group0 :: "string list \<Rightarrow> string" where
  "group0 gs = concat gs"

definition items_text :: "nat \<Rightarrow> nat \<Rightarrow> string list \<Rightarrow> string" where
  "items_text i j gs = concat (take (j - i) (drop i gs))"

section \<open>The script\<close>

subsection \<open>Reading and writing the file\<close>

text \<open>
  The script opens one fixed path for reading as UTF-8 text and later for writing. The file
  is either absent, or not valid UTF-8, or holds a text. Opening or decoding can raise; a
  pattern that does not match cannot.
\<close>

datatype error = FileNotFoundError | UnicodeDecodeError | PermissionError

datatype disk_file = Absent | Not_utf8 | Text string

text \<open>
  Both \<^verbatim>\<open>open\<close> calls are in text mode with the default \<^verbatim>\<open>newline=None\<close>. On reading,
  universal newlines apply: a carriage return followed by a line feed, and a carriage return
  alone, are each read as one line feed. On writing, every line feed of the buffer is
  written as \<^verbatim>\<open>os.linesep\<close>, which is a parameter of the model (a line feed on POSIX, a
  carriage return and a line feed on Windows).
\<close>

fun universal_newlines :: "string \<Rightarrow> string" where
  "universal_newlines [] = []"
| "universal_newlines [c] = [if c = CHR 0x0D then CHR ''\<newline>'' else c]"
| "universal_newlines (c # d # cs) =
     (if c = CHR 0x0D \<and> d = CHR ''\<newline>'' then CHR ''\<newline>'' # universal_newlines cs
      else if c = CHR 0x0D then CHR ''\<newline>'' # universal_newlines (d # cs)
      else c # universal_newlines (d # cs))"

definition write_newlines :: "string \<Rightarrow> string \<Rightarrow> string" where
  "write_newlines linesep content =
     concat (map (\<lambda>c. if c = CHR ''\<newline>'' then linesep else [c]) content)"

definition read_file :: "disk_file \<Rightarrow> error + string" where
  "read_file f = (case f of
      Absent \<Rightarrow> Inl FileNotFoundError
    | Not_utf8 \<Rightarrow> Inl UnicodeDecodeError
    | Text raw \<Rightarrow> Inr (universal_newlines raw))"

definition write_file :: "string \<Rightarrow> bool \<Rightarrow> string \<Rightarrow> error + disk_file" where
  "write_file linesep writable content =
     (if writable then Inr (Text (write_newlines linesep content)) else Inl PermissionError)"

subsection \<open>Stage 1: the struct\<close>

text \<open>
  \<^verbatim>\<open>re.sub(r"(pub struct Screenshot \{.*?pub timestamp: u64,)(\n\})",
         r"\1\n    pub tags: Vec<String>,\2", content, flags=re.DOTALL)\<close>.
  Group 1 is the text of the first three items, group 2 that of the fourth.
\<close>

definition struct_pattern :: "item list" where
  "struct_pattern =
     [Lit ''pub struct Screenshot {'', AnyLazy, Lit ''pub timestamp: u64,'', Lit ''\<newline>}'']"

definition struct_repl :: "string list \<Rightarrow> string" where
  "struct_repl gs =
     items_text 0 3 gs @ ''\<newline>    pub tags: Vec<String>,'' @ items_text 3 4 gs"

definition update_struct :: "string \<Rightarrow> string" where
  "update_struct content = re_sub struct_pattern struct_repl content"

subsection \<open>Stage 2: \<^verbatim>\<open>get_screenshots\<close>\<close>

definition get_screenshots_pattern :: "item list" where
  "get_screenshots_pattern =
     [Lit ''pub fn get_screenshots(game_exe: String) -> Result<Vec<Screenshot>, String> {'',
      AnyLazy, Lit ''\<newline>}'']"

definition injection_lines :: "string list" where
  \<open>injection_lines =
     ['''',
      ''    let dir = screenshots_dir(&game_exe);'',
      ''    if !dir.exists() {'',
      ''        return Ok(vec![]);'',
      ''    }'',
      '''',
      ''    let meta_path = dir.join("tags.json");'',
      ''    let all_tags: std::collections::HashMap<String, Vec<String>> = if meta_path.exists() {'',
      ''        let content = std::fs::read_to_string(&meta_path).map_err(|e| e.to_string())?;'',
      ''        serde_json::from_str(&content).unwrap_or_default()'',
      ''    } else {'',
      ''        std::collections::HashMap::new()'',
      ''    };'']\<close>

definition injection :: string where
  "injection = unlines injection_lines"

text \<open>
  The guard: \<^verbatim>\<open>r"let dir = screenshots_dir\(&game_exe\);\s*if !dir\.exists\(\) \{\s*return Ok\(vec!\[\]\);\s*\}"\<close>.
  Its replacement is the injection, used as a template; the injection holds no backslash,
  so the template stands for itself.
\<close>

definition guard_pattern :: "item list" where
  "guard_pattern =
     [Lit ''let dir = screenshots_dir(&game_exe);'', SpaceStar,
      Lit ''if !dir.exists() {'', SpaceStar,
      Lit ''return Ok(vec![]);'', SpaceStar,
      Lit ''}'']"

text \<open>
  The instantiation: \<^verbatim>\<open>r"Screenshot \{.*?filename,.*?timestamp,(\s*)\}"\<close> under
  \<^verbatim>\<open>re.DOTALL\<close>; group 1 is the text of the sixth item. The replacement template is a fixed
  text around \<^verbatim>\<open>\1\<close>.
\<close>

definition instantiation_pattern :: "item list" where
  "instantiation_pattern =
     [Lit ''Screenshot {'', AnyLazy, Lit ''filename,'', AnyLazy, Lit ''timestamp,'',
      SpaceStar, Lit ''}'']"

definition instantiation_repl :: "string list \<Rightarrow> string" where
  "instantiation_repl gs =
     ''let tags = all_tags.get(&filename).cloned().unwrap_or_default();\<newline>'' @
     ''            Screenshot {\<newline>'' @
     ''                path: path_str,\<newline>'' @
     ''                filename,\<newline>'' @
     ''                timestamp,\<newline>'' @
     ''                tags,'' @ items_text 5 6 gs @ ''}''"

definition replace_get_screenshots :: "string list \<Rightarrow> string" where
  "replace_get_screenshots match =
     (let header = items_text 0 1 match;
          body = items_text 1 2 match;
          footer = items_text 2 3 match;
          new_body = re_sub guard_pattern (\<lambda>gs. injection) body;
          new_body = re_sub instantiation_pattern instantiation_repl new_body
      in header @ new_body @ footer)"

definition update_get_screenshots :: "string \<Rightarrow> string" where
  "update_get_screenshots content =
     re_sub get_screenshots_pattern replace_get_screenshots content"

subsection \<open>Stage 3: the new command\<close>

definition save_cmd_lines :: "string list" where
  \<open>save_cmd_lines =
     ['''',
      ''#[tauri::command]'',
      ''pub fn save_screenshot_tags(game_exe: String, screenshot_name: String, tags: Vec<String>) -> Result<(), String> {'',
      ''    let dir = screenshots_dir(&game_exe);'',
      ''    if !dir.exists() {'',
      ''        return Err("Screenshots directory not found".into());'',
      ''    }'',
      '''',
      ''    let meta_path = dir.join("tags.json");'',
      ''    let mut all_tags: std::collections::HashMap<String, Vec<String>> = if meta_path.exists() {'',
      ''        let content = std::fs::read_to_string(&meta_path).map_err(|e| e.to_string())?;'',
      ''        serde_json::from_str(&content).unwrap_or_default()'',
      ''    } else {'',
      ''        std::collections::HashMap::new()'',
      ''    };'',
      '''',
      ''    all_tags.insert(screenshot_name, tags);'',
      '''',
      ''    let content = serde_json::to_string_pretty(&all_tags).map_err(|e| e.to_string())?;'',
      ''    std::fs::write(&meta_path, content).map_err(|e| e.to_string())?;'',
      ''    Ok(())'',
      ''}'']\<close>

definition save_cmd :: string where
  "save_cmd = unlines save_cmd_lines"

definition save_marker :: string where
  "save_marker = ''pub fn save_screenshot_tags''"

definition anchor :: string where
  "anchor = ''#[tauri::command]\<newline>pub fn open_screenshots_folder''"

definition add_save_cmd :: "string \<Rightarrow> string" where
  "add_save_cmd content =
     (if \<not> sublist save_marker content
      then str_replace anchor (save_cmd @ ''\<newline>'' @ anchor) content
      else content)"

subsection \<open>Stage 4: the other instantiations\<close>

text \<open>
  \<^verbatim>\<open>re.sub(r"Ok\(Screenshot \{.*?timestamp: now,.*?\}\)", fix_other_screenshots, content,
         flags=re.DOTALL)\<close>, where the replacement is the matched text with \<^verbatim>\<open>str.replace\<close>
  applied to it.
\<close>

definition other_pattern :: "item list" where
  "other_pattern =
     [Lit ''Ok(Screenshot {'', AnyLazy, Lit ''timestamp: now,'', AnyLazy, Lit ''})'']"

definition fix_other_screenshots :: "string list \<Rightarrow> string" where
  "fix_other_screenshots match =
     str_replace ''timestamp: now,'' ''timestamp: now,\<newline>        tags: vec![],'' (group0 match)"

definition fix_instantiations :: "string \<Rightarrow> string" where
  "fix_instantiations content = re_sub other_pattern fix_other_screenshots content"

subsection \<open>Stage 5: the pass for the win module\<close>

text \<open>
  \<^verbatim>\<open>re.sub(r"Ok\(Screenshot \{.*?timestamp: now,\n            tags: vec!\[\],.*?\}\)",
         lambda m: m.group(0), content)\<close>, without \<^verbatim>\<open>re.DOTALL\<close>, followed by an
  \<^verbatim>\<open>if\<close> whose body is \<^verbatim>\<open>pass\<close>.
\<close>

definition win_pattern :: "item list" where
  "win_pattern =
     [Lit ''Ok(Screenshot {'', DotLazy,
      Lit ''timestamp: now,\<newline>            tags: vec![],'', DotLazy, Lit ''})'']"

definition win_pass :: "string \<Rightarrow> string" where
  "win_pass content =
     (let content = re_sub win_pattern group0 content
      in if \<not> sublist ''tags: vec![],'' content \<and> \<not> sublist ''tags: all_tags'' content
         then content else content)"

subsection \<open>The whole run\<close>

definition transform :: "string \<Rightarrow> string" where
  "transform content =
     win_pass (fix_instantiations (add_save_cmd (update_get_screenshots (update_struct content))))"

text \<open>
  A run of the script on the file \<open>f\<close>, on a system whose line separator is \<open>linesep\<close>;
  \<open>writable\<close> tells whether the path can be opened for writing.
\<close>

definition script :: "string \<Rightarrow> disk_file \<Rightarrow> bool \<Rightarrow> error + disk_file" where
  "script linesep f writable =
     (case read_file f of
        Inl e \<Rightarrow> Inl e
      | Inr content \<Rightarrow> write_file linesep writable (transform content))"

section \<open>Notions used to state the properties\<close>

text \<open>
  The number of positions of a buffer at which a text occurs; "the buffer contains exactly
  one definition" is \<open>occurrences w s = 1\<close>.
\<close>

fun occurrences :: "string \<Rightarrow> string \<Rightarrow> nat" where
  "occurrences w [] = (if w = [] then 1 else 0)"
| "occurrences w (c # cs) = (if prefix w (c # cs) then 1 else 0) + occurrences w cs"

text \<open>
  The texts the patterns of stage 2 match, and the text the instantiation is replaced with:
  the header of \<^verbatim>\<open>get_screenshots\<close>; the guard clause, with the white space \<open>w1\<close>, \<open>w2\<close>,
  \<open>w3\<close> between its parts; an instantiation with the texts \<open>f1\<close> and \<open>f2\<close> before
  \<^verbatim>\<open>filename,\<close> and \<^verbatim>\<open>timestamp,\<close> and the white space \<open>w\<close> before the closing brace; the
  replacement template with \<open>w\<close> for \<^verbatim>\<open>\1\<close>.
\<close>

definition gs_header :: string where
  "gs_header = ''pub fn get_screenshots(game_exe: String) -> Result<Vec<Screenshot>, String> {''"

definition guard_head :: string where
  "guard_head = ''let dir = screenshots_dir(&game_exe);''"

definition guard_text :: "string \<Rightarrow> string \<Rightarrow> string \<Rightarrow> string" where
  "guard_text w1 w2 w3 =
     guard_head @ w1 @ ''if !dir.exists() {'' @ w2 @ ''return Ok(vec![]);'' @ w3 @ ''}''"

definition construction_text :: "string \<Rightarrow> string \<Rightarrow> string \<Rightarrow> string" where
  "construction_text f1 f2 w = ''Screenshot {'' @ f1 @ ''filename,'' @ f2 @ ''timestamp,'' @ w @ ''}''"

definition rewritten_construction :: "string \<Rightarrow> string" where
  "rewritten_construction w =
     ''let tags = all_tags.get(&filename).cloned().unwrap_or_default();\<newline>'' @
     ''            Screenshot {\<newline>'' @
     ''                path: path_str,\<newline>'' @
     ''                filename,\<newline>'' @
     ''                timestamp,\<newline>'' @
     ''                tags,'' @ w @ ''}''"

text \<open>The lines of the injection after its guard clause: they load the sidecar file.\<close>

definition sidecar_loading :: string where
  "sidecar_loading = unlines (drop 5 injection_lines)"

text \<open>
  A file in which every stage finds its pattern once, cut into the parts the stages look at:
  the struct (its opening, the fields, the timestamp line and the closing brace), the
  function \<^verbatim>\<open>get_screenshots\<close> (its header, a body with the guard clause and then the
  instantiation, and the closing brace at the start of a line), the anchor of the new
  command, and the texts between and around them.
\<close>

record layout =
  before_struct :: string
  struct_fields :: string
  before_function :: string
  body_start :: string
  space1 :: string
  space2 :: string
  space3 :: string
  body_middle :: string
  fields1 :: string
  fields2 :: string
  closing_space :: string
  body_end :: string
  before_anchor :: string
  after_anchor :: string

definition struct_text :: "string \<Rightarrow> string" where
  "struct_text m = ''pub struct Screenshot {'' @ m @ ''pub timestamp: u64,'' @ ''\<newline>}''"

definition body_text :: "layout \<Rightarrow> string" where
  "body_text l =
     body_start l @ guard_text (space1 l) (space2 l) (space3 l) @ body_middle l @
     construction_text (fields1 l) (fields2 l) (closing_space l) @ body_end l"

definition head_text :: "layout \<Rightarrow> string" where
  "head_text l =
     before_struct l @ struct_text (struct_fields l) @ before_function l @
     gs_header @ body_text l @ ''\<newline>}'' @ before_anchor l"

definition source :: "layout \<Rightarrow> string" where
  "source l = head_text l @ anchor @ after_anchor l"

text \<open>
  Such a file is well formed when the parts are what their names say: the struct opening,
  the timestamp line, the header of \<^verbatim>\<open>get_screenshots\<close> and the name of the anchor function
  occur in the file once each; the new command is not there yet; the instantiations
  \<^verbatim>\<open>Ok(Screenshot {\<close> of stage 4 come after the anchor only; the body runs to the first closing
  brace at the start of a line, holds the first line of the guard once and \<^verbatim>\<open>Screenshot {\<close>
  once, the guard is written with white space between its parts and is not directly
  followed by a closing brace, \<^verbatim>\<open>filename,\<close> and \<^verbatim>\<open>timestamp,\<close> are the first ones after the
  opening of the instantiation, white space stands before its closing brace, and no
  \<^verbatim>\<open>timestamp,\<close> follows in the body.
\<close>

definition well_formed :: "layout \<Rightarrow> bool" where
  "well_formed l \<longleftrightarrow>
     occurrences ''pub struct Screenshot {'' (source l) = 1
   \<and> occurrences ''pub timestamp: u64,'' (source l) = 1
   \<and> occurrences gs_header (source l) = 1
   \<and> occurrences ''pub fn open_screenshots_folder'' (source l) = 1
   \<and> \<not> sublist save_marker (source l)
   \<and> \<not> sublist ''Ok(Screenshot {'' (head_text l)
   \<and> \<not> sublist ''\<newline>}'' (body_text l @ ''\<newline>'')
   \<and> occurrences guard_head (body_text l) = 1
   \<and> occurrences ''Screenshot {'' (body_text l) = 1
   \<and> list_all is_space (space1 l) \<and> list_all is_space (space2 l) \<and> list_all is_space (space3 l)
   \<and> \<not> prefix ''}'' (body_middle l)
   \<and> \<not> sublist ''filename,'' (fields1 l)
   \<and> \<not> sublist ''timestamp,'' (fields2 l)
   \<and> list_all is_space (closing_space l)
   \<and> \<not> sublist ''timestamp,'' (body_end l)"

text \<open>
  The lines of the replacement of an instantiation before its last line, and the texts that
  none of the texts put in by stages 1 and 2 can complete or contain: \<open>plain_text w\<close> says
  that \<open>w\<close> has no newline and no closing brace, begins with a character that is neither
  white space nor in \<^verbatim>\<open>tags,\<close>, is in none of these lines, and that no proper end of \<open>w\<close>
  begins the first of them.
\<close>

definition lookup_lines :: "string list" where
  "lookup_lines =
     [''let tags = all_tags.get(&filename).cloned().unwrap_or_default();'',
      ''            Screenshot {'',
      ''                path: path_str,'',
      ''                filename,'',
      ''                timestamp,'']"

definition plain_text :: "string \<Rightarrow> bool" where
  "plain_text w \<longleftrightarrow>
     w \<noteq> [] \<and> CHR ''\<newline>'' \<notin> set w \<and> CHR ''}'' \<notin> set w
   \<and> \<not> is_space (hd w) \<and> hd w \<notin> set ''                tags,''
   \<and> \<not> list_ex (sublist w) lookup_lines
   \<and> list_all (\<lambda>j. \<not> prefix (drop j w) (hd lookup_lines)) [1..<length w]"

text \<open>
  \<open>tag_ins s s'\<close>: the text \<open>s'\<close> is \<open>s\<close> with the line \<^verbatim>\<open>tags: vec![],\<close> put in after some
  of the occurrences of \<^verbatim>\<open>timestamp: now,\<close>. Stage 4 changes a buffer in no other way.
\<close>

inductive tag_ins :: "string \<Rightarrow> string \<Rightarrow> bool" where
  Nil: "tag_ins [] []"
| Keep: "tag_ins s s' \<Longrightarrow> tag_ins (c # s) (c # s')"
| Ins: "tag_ins s s' \<Longrightarrow>
        tag_ins (''timestamp: now,'' @ s) (''timestamp: now,'' @ ''\<newline>        tags: vec![],'' @ s')"

section \<open>Facts about the matcher\<close>

text \<open>
  The recursion equation of \<open>re_sub\<close> rewrites itself; it is applied by hand.
\<close>

declare re_sub.simps [simp del]

lemma lazy_star_sound:
  "lazy_star ok k s = Some (m, x) \<Longrightarrow> \<exists>t. s = m @ t \<and> k t = Some x"
proof (induction s arbitrary: m)
  case Nil
  then show ?case by auto
next
  case (Cons c cs)
  show ?case
  proof (cases "k (c # cs)")
    case (Some r)
    with Cons.prems show ?thesis by auto
  next
    case None
    with Cons.prems obtain m' where m': "lazy_star ok k cs = Some (m', x)" "m = c # m'"
      by (auto split: if_splits)
    from Cons.IH[OF m'(1)] m'(2) show ?thesis by auto
  qed
qed

lemma greedy_star_sound:
  "greedy_star ok k s = Some (m, x) \<Longrightarrow> \<exists>t. s = m @ t \<and> k t = Some x"
proof (induction s arbitrary: m)
  case Nil
  then show ?case by auto
next
  case (Cons c cs)
  show ?case
  proof (cases "ok c \<and> greedy_star ok k cs \<noteq> None")
    case True
    with Cons.prems obtain m' where m': "greedy_star ok k cs = Some (m', x)" "m = c # m'"
      by (auto split: option.splits)
    from Cons.IH[OF m'(1)] m'(2) show ?thesis by auto
  next
    case False
    with Cons.prems show ?thesis by (auto split: if_splits option.splits)
  qed
qed

lemma match_items_concat:
  "match_items p s = Some (gs, r) \<Longrightarrow> concat gs @ r = s"
proof (induction p arbitrary: s gs r)
  case Nil
  then show ?case by simp
next
  case (Cons a p)
  show ?case
  proof (cases a)
    case (Lit l)
    with Cons.prems obtain gs' where g: "prefix l s" "match_items p (drop (length l) s) = Some (gs', r)" "gs = l # gs'"
      by (auto split: if_splits)
    from Cons.IH[OF g(2)] g(1,3) show ?thesis by (auto simp: prefix_def)
  next
    case AnyLazy
    with Cons.prems obtain m gs' where g: "lazy_star (\<lambda>c. True) (match_items p) s = Some (m, gs', r)" "gs = m # gs'"
      by auto
    from lazy_star_sound[OF g(1)] obtain t where "s = m @ t" "match_items p t = Some (gs', r)" by blast
    with Cons.IH[of t gs' r] g(2) show ?thesis by simp
  next
    case DotLazy
    with Cons.prems obtain m gs' where g: "lazy_star (\<lambda>c. c \<noteq> CHR ''\<newline>'') (match_items p) s = Some (m, gs', r)" "gs = m # gs'"
      by auto
    from lazy_star_sound[OF g(1)] obtain t where "s = m @ t" "match_items p t = Some (gs', r)" by blast
    with Cons.IH[of t gs' r] g(2) show ?thesis by simp
  next
    case SpaceStar
    with Cons.prems obtain m gs' where g: "greedy_star is_space (match_items p) s = Some (m, gs', r)" "gs = m # gs'"
      by auto
    from greedy_star_sound[OF g(1)] obtain t where "s = m @ t" "match_items p t = Some (gs', r)" by blast
    with Cons.IH[of t gs' r] g(2) show ?thesis by simp
  qed
qed

lemma lazy_star_first:
  "k t = Some x \<Longrightarrow> \<forall>i<length m. k (drop i (m @ t)) = None \<Longrightarrow> list_all ok m
   \<Longrightarrow> lazy_star ok k (m @ t) = Some (m, x)"
proof (induction m)
  case Nil
  then show ?case by (cases t) auto
next
  case (Cons c m)
  from Cons.prems(2) have k0: "k (c # m @ t) = None" by auto
  have "\<forall>i<length m. k (drop i (m @ t)) = None"
  proof (intro allI impI)
    fix i assume "i < length m"
    with Cons.prems(2) have "k (drop (Suc i) ((c # m) @ t)) = None" by (metis Suc_less_eq length_Cons)
    then show "k (drop i (m @ t)) = None" by simp
  qed
  with Cons.IH Cons.prems have "lazy_star ok k (m @ t) = Some (m, x)" by simp
  with k0 Cons.prems(3) show ?case by simp
qed

lemma greedy_star_all:
  "list_all ok w \<Longrightarrow> (case t of [] \<Rightarrow> True | c # cs \<Rightarrow> \<not> ok c) \<Longrightarrow> k t = Some x
   \<Longrightarrow> greedy_star ok k (w @ t) = Some (w, x)"
proof (induction w)
  case Nil
  then show ?case by (cases t) auto
next
  case (Cons c w)
  then show ?case by simp
qed

lemma no_occ:
  assumes "\<not> sublist a (m @ take (length a - 1) t)" "i < length m"
  shows "\<not> prefix a (drop i (m @ t))"
proof
  assume "prefix a (drop i (m @ t))"
  then obtain z where z: "drop i (m @ t) = a @ z" by (auto simp: prefix_def)
  have eq: "m @ t = take i (m @ t) @ a @ z" using z by (metis append_take_drop_id)
  have "take (i + length a) (m @ t) = take i (m @ t) @ a"
    using eq by (metis append_eq_conv_conj take_add z)
  moreover have "i + length a \<le> length m + (length a - 1)" using assms(2) by auto
  ultimately have "prefix (take i (m @ t) @ a) (take (length m + (length a - 1)) (m @ t))"
    by (metis le_add_diff_inverse prefix_def take_add)
  then have "prefix (take i (m @ t) @ a) (m @ take (length a - 1) t)" by simp
  then have "sublist a (m @ take (length a - 1) t)"
    by (metis prefix_def sublist_appendI append.assoc)
  with assms(1) show False by simp
qed

lemma no_occ_lit:
  assumes "\<not> sublist a (m @ butlast a)" "i < length m"
  shows "\<not> prefix a (drop i (m @ a @ r))"
proof -
  have "take (length a - 1) (a @ r) = butlast a" by (simp add: butlast_conv_take)
  with no_occ[of a m "a @ r" i] assms show ?thesis by simp
qed

lemma re_sub_skip:
  "\<forall>i<length pre. match_items p (drop i (pre @ s)) = None
   \<Longrightarrow> re_sub p f (pre @ s) = pre @ re_sub p f s"
proof (induction pre)
  case Nil
  then show ?case by simp
next
  case (Cons c pre)
  from Cons.prems have m0: "match_items p (c # pre @ s) = None" by auto
  have "\<forall>i<length pre. match_items p (drop i (pre @ s)) = None"
  proof (intro allI impI)
    fix i assume "i < length pre"
    with Cons.prems have "match_items p (drop (Suc i) ((c # pre) @ s)) = None"
      by (metis Suc_less_eq length_Cons)
    then show "match_items p (drop i (pre @ s)) = None" by simp
  qed
  with Cons.IH have "re_sub p f (pre @ s) = pre @ re_sub p f s" by simp
  with m0 show ?case by (simp add: re_sub.simps[of p f "c # pre @ s"])
qed

lemma re_sub_hit:
  "match_items p s = Some (gs, r) \<Longrightarrow> length r < length s
   \<Longrightarrow> re_sub p f s = f gs @ re_sub p f r"
  by (simp add: re_sub.simps[of p f s])

lemma re_sub_none:
  "re_search p s = None \<Longrightarrow> re_sub p f s = s"
proof (induction s)
  case Nil
  then show ?case by (simp add: re_sub.simps[of p f "[]"])
next
  case (Cons c cs)
  then show ?case by (simp add: re_sub.simps[of p f "c # cs"] split: option.splits)
qed

lemma re_sub_group0:
  "re_sub p group0 s = s"
proof (induction s rule: length_induct)
  case (1 s)
  show ?case
  proof (cases "match_items p s")
    case None
    show ?thesis
    proof (cases s)
      case Nil
      with None show ?thesis by (simp add: re_sub.simps[of p group0 "[]"])
    next
      case (Cons c cs)
      with 1 have "re_sub p group0 cs = cs" by simp
      with None Cons show ?thesis
        by (simp add: re_sub.simps[of p group0 "c # cs"])
    qed
  next
    case (Some a)
    then obtain gs r where a: "match_items p s = Some (gs, r)" by (cases a) auto
    from match_items_concat[OF a] have c: "concat gs @ r = s" .
    show ?thesis
    proof (cases "length r < length s")
      case True
      with 1 have ih: "re_sub p group0 r = r" by simp
      have g: "group0 gs = concat gs" by (simp add: group0_def)
      from re_sub_hit[OF a True, of group0] ih g c show ?thesis by simp
    next
      case False
      from c have "length (concat gs) + length r = length s" by (metis length_append)
      with False have "length (concat gs) = 0" by arith
      then have cg: "concat gs = []" by (simp only: length_0_conv)
      have e: "group0 gs = []" "r = s"
        using cg c by (simp_all only: group0_def append_Nil)
      show ?thesis
      proof (cases s)
        case Nil
        from Nil a e show ?thesis
          by (simp add: re_sub.simps[of p group0 "[]"])
      next
        case (Cons c cs)
        with 1 have "re_sub p group0 cs = cs" by simp
        then show ?thesis using a e Cons
          by (simp add: re_sub.simps[of p group0 "c # cs"])
      qed
    qed
  qed
qed

lemma str_replace_none:
  "\<not> sublist old s \<Longrightarrow> str_replace old new s = s"
proof (induction s)
  case Nil
  then show ?case by auto
next
  case (Cons c cs)
  then show ?case by (auto simp: sublist_Cons_right)
qed

lemma re_search_NoneI: "\<not> sublist a s \<Longrightarrow> re_search (Lit a # ps) s = None"
proof (induction s)
  case Nil
  then show ?case by auto
next
  case (Cons c cs)
  then show ?case by (auto simp: sublist_Cons_right)
qed

subsection \<open>Matches of the shapes the script uses\<close>

lemma match_Lit:
  "match_items ps t = Some (gs, r) \<Longrightarrow> match_items (Lit a # ps) (a @ t) = Some (a # gs, r)"
  by simp

lemma match_Lit_None:
  "\<not> prefix a s \<Longrightarrow> match_items (Lit a # ps) s = None"
  by simp

lemma match_Lit2_None:
  "\<not> prefix (a @ b) s \<Longrightarrow> match_items (Lit a # Lit b # ps) s = None"
  by (auto simp: prefix_def)

lemma match_AnyLazy:
  assumes "match_items ps t = Some (gs, r)"
    and "\<forall>i<length m. match_items ps (drop i (m @ t)) = None"
  shows "match_items (AnyLazy # ps) (m @ t) = Some (m # gs, r)"
proof -
  have "list_all (\<lambda>c. True) m" by (simp add: list_all_iff)
  from lazy_star_first[OF assms(1) assms(2) this] show ?thesis by simp
qed

lemma match_SpaceStar:
  assumes "list_all is_space w"
    and "case t of [] \<Rightarrow> True | c # cs \<Rightarrow> \<not> is_space c"
    and "match_items ps t = Some (gs, r)"
  shows "match_items (SpaceStar # ps) (w @ t) = Some (w # gs, r)"
  using greedy_star_all[of is_space w t "match_items ps" "(gs, r)"] assms by simp

lemma match_any_lit:
  assumes "\<not> sublist b (m @ butlast b)"
    and "match_items (Lit b # ps) (b @ t) = Some (gs, r)"
  shows "match_items (AnyLazy # Lit b # ps) (m @ b @ t) = Some (m # gs, r)"
proof (rule match_AnyLazy[OF assms(2)])
  show "\<forall>i<length m. match_items (Lit b # ps) (drop i (m @ b @ t)) = None"
    using no_occ_lit[OF assms(1)] match_Lit_None by blast
qed

lemma match_any_lit2:
  assumes "\<not> sublist (b @ c) (m @ butlast (b @ c))"
    and "match_items (Lit b # Lit c # ps) (b @ c @ t) = Some (gs, r)"
  shows "match_items (AnyLazy # Lit b # Lit c # ps) (m @ b @ c @ t) = Some (m # gs, r)"
proof (rule match_AnyLazy[OF assms(2)])
  show "\<forall>i<length m. match_items (Lit b # Lit c # ps) (drop i (m @ b @ c @ t)) = None"
  proof (intro allI impI)
    fix i assume "i < length m"
    from no_occ_lit[OF assms(1) this, of t]
    have "\<not> prefix (b @ c) (drop i (m @ b @ c @ t))" by simp
    then show "match_items (Lit b # Lit c # ps) (drop i (m @ b @ c @ t)) = None"
      by (rule match_Lit2_None)
  qed
qed

lemma re_sub_skip_lit:
  assumes "\<not> sublist a (pre @ butlast a)"
  shows "re_sub (Lit a # ps) f (pre @ a @ s) = pre @ re_sub (Lit a # ps) f (a @ s)"
proof (rule re_sub_skip)
  show "\<forall>i<length pre. match_items (Lit a # ps) (drop i (pre @ a @ s)) = None"
    using no_occ_lit[OF assms] match_Lit_None by blast
qed

lemma re_sub_no_lit:
  "\<not> sublist a s \<Longrightarrow> re_sub (Lit a # ps) f s = s"
  by (simp add: re_search_NoneI re_sub_none)

lemma struct_match:
  assumes "\<not> sublist (''pub timestamp: u64,'' @ ''\<newline>}'') (mid @ butlast (''pub timestamp: u64,'' @ ''\<newline>}''))"
  shows "match_items struct_pattern (''pub struct Screenshot {'' @ mid @ ''pub timestamp: u64,'' @ ''\<newline>}'' @ post)
         = Some ([''pub struct Screenshot {'', mid, ''pub timestamp: u64,'', ''\<newline>}''], post)"
  unfolding struct_pattern_def
  by (rule match_Lit, rule match_any_lit2[OF assms], rule match_Lit, rule match_Lit) simp

subsection \<open>Occurrences of a text around a separating character\<close>

lemma prefix_sep:
  assumes "c \<notin> set w"
  shows "prefix w (x @ c # y) \<longleftrightarrow> prefix w x"
proof
  assume "prefix w (x @ c # y)"
  then consider "prefix w x" | us where "w = x @ us" "prefix us (c # y)"
    unfolding prefix_append by blast
  then show "prefix w x"
  proof cases
    case 1 then show ?thesis .
  next
    case 2
    with assms have "us = []" by (cases us) auto
    with 2 show ?thesis by simp
  qed
next
  assume "prefix w x"
  then show "prefix w (x @ c # y)" by (rule prefix_prefix)
qed

lemma sublist_sep:
  assumes "c \<notin> set w" "w \<noteq> []"
  shows "sublist w (x @ c # y) \<longleftrightarrow> sublist w x \<or> sublist w y"
proof (induction x)
  case Nil
  have "\<not> prefix w (c # y)" using assms by (cases w) auto
  then show ?case using assms by (simp add: sublist_Cons_right)
next
  case (Cons a x)
  have "prefix w ((a # x) @ c # y) \<longleftrightarrow> prefix w (a # x)"
    by (rule prefix_sep[OF assms(1)])
  with Cons show ?case by (simp add: sublist_Cons_right)
qed

lemma occurrences_sep:
  assumes "c \<notin> set w" "w \<noteq> []"
  shows "occurrences w (x @ c # y) = occurrences w x + occurrences w y"
proof (induction x)
  case Nil
  have "\<not> prefix w (c # y)" using assms by (cases w) auto
  then show ?case using assms by simp
next
  case (Cons a x)
  have "prefix w ((a # x) @ c # y) \<longleftrightarrow> prefix w (a # x)"
    by (rule prefix_sep[OF assms(1)])
  with Cons show ?case by simp
qed

lemma unlines_Cons: "unlines (l # ls) @ r = l @ CHR ''\<newline>'' # (unlines ls @ r)"
  by (simp add: unlines_def)

lemma sublist_unlines:
  assumes "CHR ''\<newline>'' \<notin> set w" "w \<noteq> []"
  shows "sublist w (unlines ls @ r) \<longleftrightarrow> list_ex (sublist w) ls \<or> sublist w r"
proof (induction ls)
  case Nil
  then show ?case by (simp add: unlines_def)
next
  case (Cons l ls)
  have "sublist w (unlines (l # ls) @ r) \<longleftrightarrow> sublist w l \<or> sublist w (unlines ls @ r)"
    using sublist_sep[OF assms, of l "unlines ls @ r"] by (simp add: unlines_Cons)
  with Cons show ?case by simp
qed


lemma occurrences_0_iff: "occurrences w s = 0 \<longleftrightarrow> \<not> sublist w s"
  by (induction s) (auto simp: sublist_Cons_right)


lemma str_replace_hit:
  "old \<noteq> [] \<Longrightarrow> str_replace old new (old @ s) = new @ str_replace old new s"
  by (cases old) auto 

subsection \<open>Stage 4 at one instantiation\<close>




subsection \<open>Stage 2, one match at a time\<close>

text \<open>The named texts are those of the patterns and of the replacement template.\<close>

lemma stage2_texts:
  "get_screenshots_pattern = [Lit gs_header, AnyLazy, Lit ''\<newline>}'']"
  "guard_pattern =
     [Lit guard_head, SpaceStar, Lit ''if !dir.exists() {'', SpaceStar,
      Lit ''return Ok(vec![]);'', SpaceStar, Lit ''}'']"
  "instantiation_repl [s, f1, f, f2, t, w, e] = rewritten_construction w"
  by (simp_all add: get_screenshots_pattern_def gs_header_def guard_pattern_def guard_head_def
        instantiation_repl_def rewritten_construction_def items_text_def)

lemma not_space_simps:
  "\<not> is_space CHR ''i''" "\<not> is_space CHR ''r''" "\<not> is_space CHR ''}''"
  by (simp_all add: is_space_def)

lemma gs_match:
  assumes "\<not> sublist ''\<newline>}'' (body @ butlast ''\<newline>}'')"
  shows "match_items get_screenshots_pattern
           (''pub fn get_screenshots(game_exe: String) -> Result<Vec<Screenshot>, String> {'' @ body @ ''\<newline>}'' @ r)
         = Some ([''pub fn get_screenshots(game_exe: String) -> Result<Vec<Screenshot>, String> {'', body, ''\<newline>}''], r)"
  unfolding get_screenshots_pattern_def
  by (rule match_Lit, rule match_any_lit[OF assms], rule match_Lit) simp

lemma guard_match:
  assumes "list_all is_space w1" "list_all is_space w2" "list_all is_space w3"
  shows "match_items guard_pattern
           (''let dir = screenshots_dir(&game_exe);'' @ w1 @ ''if !dir.exists() {'' @ w2 @
            ''return Ok(vec![]);'' @ w3 @ ''}'' @ r)
         = Some ([''let dir = screenshots_dir(&game_exe);'', w1, ''if !dir.exists() {'', w2,
                  ''return Ok(vec![]);'', w3, ''}''], r)"
  unfolding guard_pattern_def
  apply (rule match_Lit)
  apply (rule match_SpaceStar[OF assms(1)])
   apply (simp add: not_space_simps)
  apply (rule match_Lit)
  apply (rule match_SpaceStar[OF assms(2)])
   apply (simp add: not_space_simps)
  apply (rule match_Lit)
  apply (rule match_SpaceStar[OF assms(3)])
   apply (simp add: not_space_simps)
  apply (rule match_Lit)
  apply simp
  done

lemma inst_match:
  assumes "\<not> sublist ''filename,'' (f1 @ butlast ''filename,'')"
    and "\<not> sublist ''timestamp,'' (f2 @ butlast ''timestamp,'')"
    and "list_all is_space w"
  shows "match_items instantiation_pattern
           (''Screenshot {'' @ f1 @ ''filename,'' @ f2 @ ''timestamp,'' @ w @ ''}'' @ r)
         = Some ([''Screenshot {'', f1, ''filename,'', f2, ''timestamp,'', w, ''}''], r)"
  unfolding instantiation_pattern_def
  apply (rule match_Lit)
  apply (rule match_any_lit[OF assms(1)])
  apply (rule match_Lit)
  apply (rule match_any_lit[OF assms(2)])
  apply (rule match_Lit)
  apply (rule match_SpaceStar[OF assms(3)])
   apply (simp add: not_space_simps)
  apply (rule match_Lit)
  apply simp
  done

lemma guard_step:
  assumes "\<not> sublist ''let dir = screenshots_dir(&game_exe);'' (b0 @ butlast ''let dir = screenshots_dir(&game_exe);'')"
    and "list_all is_space w1" "list_all is_space w2" "list_all is_space w3"
  shows "re_sub guard_pattern (\<lambda>gs. injection)
           (b0 @ ''let dir = screenshots_dir(&game_exe);'' @ w1 @ ''if !dir.exists() {'' @ w2 @
            ''return Ok(vec![]);'' @ w3 @ ''}'' @ r)
         = b0 @ injection @ re_sub guard_pattern (\<lambda>gs. injection) r"
proof -
  let ?s = "''let dir = screenshots_dir(&game_exe);'' @ w1 @ ''if !dir.exists() {'' @ w2 @
            ''return Ok(vec![]);'' @ w3 @ ''}'' @ r"
  have "re_sub guard_pattern (\<lambda>gs. injection) (b0 @ ?s)
        = b0 @ re_sub guard_pattern (\<lambda>gs. injection) ?s"
    unfolding guard_pattern_def by (rule re_sub_skip_lit[OF assms(1)])
  also have "re_sub guard_pattern (\<lambda>gs. injection) ?s
        = injection @ re_sub guard_pattern (\<lambda>gs. injection) r"
    by (rule re_sub_hit[OF guard_match[OF assms(2-4)]]) simp
  finally show ?thesis .
qed

lemma inst_step:
  assumes "\<not> sublist ''Screenshot {'' (c0 @ butlast ''Screenshot {'')"
    and "\<not> sublist ''filename,'' (f1 @ butlast ''filename,'')"
    and "\<not> sublist ''timestamp,'' (f2 @ butlast ''timestamp,'')"
    and "list_all is_space w"
  shows "re_sub instantiation_pattern instantiation_repl
           (c0 @ ''Screenshot {'' @ f1 @ ''filename,'' @ f2 @ ''timestamp,'' @ w @ ''}'' @ r)
         = c0 @
           ''let tags = all_tags.get(&filename).cloned().unwrap_or_default();\<newline>'' @
           ''            Screenshot {\<newline>'' @
           ''                path: path_str,\<newline>'' @
           ''                filename,\<newline>'' @
           ''                timestamp,\<newline>'' @
           ''                tags,'' @ w @ ''}'' @
           re_sub instantiation_pattern instantiation_repl r"
proof -
  let ?s = "''Screenshot {'' @ f1 @ ''filename,'' @ f2 @ ''timestamp,'' @ w @ ''}'' @ r"
  have "re_sub instantiation_pattern instantiation_repl (c0 @ ?s)
        = c0 @ re_sub instantiation_pattern instantiation_repl ?s"
    unfolding instantiation_pattern_def by (rule re_sub_skip_lit[OF assms(1)])
  also have "re_sub instantiation_pattern instantiation_repl ?s
        = instantiation_repl [''Screenshot {'', f1, ''filename,'', f2, ''timestamp,'', w, ''}'']
          @ re_sub instantiation_pattern instantiation_repl r"
    by (rule re_sub_hit[OF inst_match[OF assms(2-4)]]) simp
  finally have e: "re_sub instantiation_pattern instantiation_repl (c0 @ ?s)
        = c0 @ instantiation_repl [''Screenshot {'', f1, ''filename,'', f2, ''timestamp,'', w, ''}'']
          @ re_sub instantiation_pattern instantiation_repl r" .
  have "instantiation_repl [''Screenshot {'', f1, ''filename,'', f2, ''timestamp,'', w, ''}'']
        = ''let tags = all_tags.get(&filename).cloned().unwrap_or_default();\<newline>'' @
           ''            Screenshot {\<newline>'' @
           ''                path: path_str,\<newline>'' @
           ''                filename,\<newline>'' @
           ''                timestamp,\<newline>'' @
           ''                tags,'' @ w @ ''}''"
    by (simp add: instantiation_repl_def items_text_def)
  with e show ?thesis by simp
qed

lemma guard_step':
  assumes "\<not> sublist guard_head (b0 @ butlast guard_head)"
    and "list_all is_space w1" "list_all is_space w2" "list_all is_space w3"
  shows "re_sub guard_pattern (\<lambda>gs. injection) (b0 @ guard_text w1 w2 w3 @ r)
         = b0 @ injection @ re_sub guard_pattern (\<lambda>gs. injection) r"
  using guard_step[of b0 w1 w2 w3 r] assms
  by (simp add: guard_text_def guard_head_def)

lemma guard_none:
  "\<not> sublist guard_head s \<Longrightarrow> re_sub guard_pattern f s = s"
  unfolding guard_pattern_def guard_head_def by (rule re_sub_no_lit)

lemma inst_step':
  assumes "\<not> sublist ''Screenshot {'' (c0 @ butlast ''Screenshot {'')"
    and "\<not> sublist ''filename,'' (f1 @ butlast ''filename,'')"
    and "\<not> sublist ''timestamp,'' (f2 @ butlast ''timestamp,'')"
    and "list_all is_space w"
  shows "re_sub instantiation_pattern instantiation_repl (c0 @ construction_text f1 f2 w @ r)
         = c0 @ rewritten_construction w @ re_sub instantiation_pattern instantiation_repl r"
  using inst_step[OF assms, of r]
  by (simp add: construction_text_def rewritten_construction_def)

lemma inst_none:
  "\<not> sublist ''Screenshot {'' s \<Longrightarrow> re_sub instantiation_pattern f s = s"
  unfolding instantiation_pattern_def by (rule re_sub_no_lit)

lemma gs_step:
  assumes "\<not> sublist gs_header (pre @ butlast gs_header)"
    and "\<not> sublist ''\<newline>}'' (body @ ''\<newline>'')"
  shows "update_get_screenshots (pre @ gs_header @ body @ ''\<newline>}'' @ post)
         = pre @ gs_header @
           re_sub instantiation_pattern instantiation_repl
             (re_sub guard_pattern (\<lambda>gs. injection) body) @
           ''\<newline>}'' @ update_get_screenshots post"
proof -
  let ?s = "gs_header @ body @ ''\<newline>}'' @ post"
  have b: "\<not> sublist ''\<newline>}'' (body @ butlast ''\<newline>}'')" using assms(2) by simp
  have "re_sub (Lit gs_header # [AnyLazy, Lit ''\<newline>}'']) replace_get_screenshots (pre @ ?s)
        = pre @ re_sub (Lit gs_header # [AnyLazy, Lit ''\<newline>}'']) replace_get_screenshots ?s"
    by (rule re_sub_skip_lit[OF assms(1)])
  then have 1: "update_get_screenshots (pre @ ?s)
        = pre @ re_sub get_screenshots_pattern replace_get_screenshots ?s"
    by (simp only: update_get_screenshots_def get_screenshots_pattern_def gs_header_def)
  have 2: "re_sub get_screenshots_pattern replace_get_screenshots ?s
        = replace_get_screenshots [gs_header, body, ''\<newline>}'']
          @ re_sub get_screenshots_pattern replace_get_screenshots post"
    unfolding gs_header_def by (rule re_sub_hit[OF gs_match[OF b]]) simp
  have 3: "replace_get_screenshots [gs_header, body, ''\<newline>}'']
        = gs_header @ re_sub instantiation_pattern instantiation_repl
             (re_sub guard_pattern (\<lambda>gs. injection) body) @ ''\<newline>}''"
    by (simp add: replace_get_screenshots_def items_text_def Let_def)
  show ?thesis
    unfolding 1 2 3 by (simp only: append_assoc update_get_screenshots_def)
qed

lemma sublist_first_empty_line:
  assumes "CHR ''\<newline>'' \<notin> set w" "w \<noteq> []"
  shows "sublist w (x @ unlines ([] # ls) @ y)
         \<longleftrightarrow> sublist w x \<or> list_ex (sublist w) ls \<or> sublist w y"
proof -
  have "x @ unlines ([] # ls) @ y = x @ CHR ''\<newline>'' # (unlines ls @ y)"
    by (simp add: unlines_def)
  then show ?thesis
    by (simp only: sublist_sep[OF assms] sublist_unlines[OF assms])
qed

lemma injection_lines_Cons: "injection_lines = [] # tl injection_lines"
  by (simp add: injection_lines_def)

lemma sublist_injection:
  assumes "CHR ''\<newline>'' \<notin> set w" "w \<noteq> []"
  shows "sublist w (x @ injection @ y)
         \<longleftrightarrow> sublist w x \<or> list_ex (sublist w) (tl injection_lines) \<or> sublist w y"
proof -
  have e: "injection = unlines ([] # tl injection_lines)"
    using injection_lines_Cons by (simp add: injection_def)
  show ?thesis unfolding e by (rule sublist_first_empty_line[OF assms])
qed

lemma no_construction_in_injection:
  "\<not> list_ex (sublist ''Screenshot {'') (tl injection_lines)"
  by code_simp

subsection \<open>The injection under the two passes over the body\<close>

lemma re_sub_skip_region:
  assumes "\<not> sublist a (pre @ take (length a - 1) s)"
  shows "re_sub (Lit a # ps) f (pre @ s) = pre @ re_sub (Lit a # ps) f s"
proof (rule re_sub_skip)
  show "\<forall>i<length pre. match_items (Lit a # ps) (drop i (pre @ s)) = None"
    using no_occ[OF assms] match_Lit_None by blast
qed

lemma not_sublist_take:
  "a \<noteq> [] \<Longrightarrow> \<not> sublist a (take (length a - 1) s)"
proof
  assume "a \<noteq> []" "sublist a (take (length a - 1) s)"
  then have "length a \<le> length (take (length a - 1) s)" by (rule_tac sublist_length_le)
  with \<open>a \<noteq> []\<close> show False by (cases a) auto
qed




lemma construction_nl: "CHR ''\<newline>'' \<notin> set ''Screenshot {''" "''Screenshot {'' \<noteq> []"
  by simp_all




lemma inst_skips_injection:
  assumes "\<not> sublist ''Screenshot {'' b0"
  shows "re_sub instantiation_pattern f (b0 @ injection @ q)
         = b0 @ injection @ re_sub instantiation_pattern f q"
proof -
  let ?x = "take (length ''Screenshot {'' - 1) q"
  have "\<not> sublist ''Screenshot {'' (b0 @ injection @ ?x)"
    unfolding sublist_injection[OF construction_nl]
    using assms no_construction_in_injection not_sublist_take[OF construction_nl(2)] by blast
  then have "\<not> sublist ''Screenshot {'' ((b0 @ injection) @ ?x)" by simp
  from re_sub_skip_region[OF this, of "tl instantiation_pattern" f]
  show ?thesis by (simp add: instantiation_pattern_def)
qed







subsection \<open>Runs in which only stage 2 finds its pattern\<close>

lemma sidecar_lines_subset: "list_ex P (drop 5 injection_lines) \<Longrightarrow> list_ex P (tl injection_lines)"
proof -
  have "drop 5 injection_lines = drop 4 (tl injection_lines)"
    by (subst injection_lines_Cons) (simp add: drop_Cons')
  moreover assume "list_ex P (drop 5 injection_lines)"
  ultimately show ?thesis
    by (metis list_ex_iff in_set_dropD)
qed

lemma clean_around_injection:
  assumes "CHR ''\<newline>'' \<notin> set w" "w \<noteq> []"
    and "\<not> list_ex (sublist w) (tl injection_lines)"
    and "\<not> sublist w x" and "\<not> sublist w y"
  shows "\<not> sublist w (x @ injection @ y)"
    and "\<not> sublist w (x @ injection @ ''\<newline>'' @ sidecar_loading @ y)"
proof -
  show "\<not> sublist w (x @ injection @ y)"
    unfolding sublist_injection[OF assms(1,2)] using assms(3-5) by simp
  have "sublist w ([] @ CHR ''\<newline>'' # (unlines (drop 5 injection_lines) @ y))
        \<longleftrightarrow> list_ex (sublist w) (drop 5 injection_lines) \<or> sublist w y"
    unfolding sublist_sep[OF assms(1,2)] sublist_unlines[OF assms(1,2)] using assms(2) by simp
  then have "\<not> sublist w (''\<newline>'' @ sidecar_loading @ y)"
    using assms(3,5) sidecar_lines_subset[of "sublist w"] by (auto simp: sidecar_loading_def)
  then show "\<not> sublist w (x @ injection @ ''\<newline>'' @ sidecar_loading @ y)"
    unfolding sublist_injection[OF assms(1,2)] using assms(3,4) by simp
qed




subsection \<open>Stage 4 only inserts\<close>

lemma tag_ins_refl: "tag_ins s s"
  by (induction s) (auto intro: tag_ins.intros)

lemma tag_ins_append:
  "tag_ins a a' \<Longrightarrow> tag_ins b b' \<Longrightarrow> tag_ins (a @ b) (a' @ b')"
proof (induction rule: tag_ins.induct)
  case Nil
  then show ?case by simp
next
  case (Keep s s' c)
  then show ?case by (simp add: tag_ins.Keep)
next
  case (Ins s s')
  then have "tag_ins (s @ b) (s' @ b')" by simp
  from tag_ins.Ins[OF this] show ?case by simp
qed

lemma str_replace_miss:
  "old \<noteq> [] \<Longrightarrow> \<not> prefix old (c # cs)
   \<Longrightarrow> str_replace old new (c # cs) = c # str_replace old new cs"
  by simp

lemma tag_ins_str_replace:
  "tag_ins m (str_replace ''timestamp: now,'' ''timestamp: now,\<newline>        tags: vec![],'' m)"
proof (induction m rule: length_induct)
  case (1 m)
  let ?T = "''timestamp: now,''" and ?N = "''timestamp: now,\<newline>        tags: vec![],''"
  show ?case
  proof (cases m)
    case Nil
    then show ?thesis by (simp add: tag_ins.Nil)
  next
    case (Cons c cs)
    show ?thesis
    proof (cases "prefix ?T m")
      case True
      then obtain r where r: "m = ?T @ r" by (auto simp: prefix_def)
      then have "length r < length m" by simp
      with 1 have "tag_ins r (str_replace ?T ?N r)" by blast
      from tag_ins.Ins[OF this] have "tag_ins (?T @ r) (?N @ str_replace ?T ?N r)" by simp
      moreover have "str_replace ?T ?N (?T @ r) = ?N @ str_replace ?T ?N r"
        by (rule str_replace_hit) simp
      ultimately show ?thesis using r by simp
    next
      case False
      from 1 Cons have "tag_ins cs (str_replace ?T ?N cs)" by simp
      from tag_ins.Keep[OF this, of c]
      have "tag_ins (c # cs) (c # str_replace ?T ?N cs)" .
      moreover have "str_replace ?T ?N (c # cs) = c # str_replace ?T ?N cs"
        using False unfolding Cons by (intro str_replace_miss) simp_all
      ultimately show ?thesis unfolding Cons by (simp only:)
    qed
  qed
qed

lemma tag_ins_fix_instantiations: "tag_ins s (fix_instantiations s)"
  unfolding fix_instantiations_def
proof (induction s rule: length_induct)
  case (1 s)
  let ?f = "re_sub other_pattern fix_other_screenshots"
  show ?case
  proof (cases "match_items other_pattern s")
    case None
    show ?thesis
    proof (cases s)
      case Nil
      with None show ?thesis
        by (simp add: re_sub.simps[of other_pattern fix_other_screenshots "[]"] tag_ins.Nil)
    next
      case (Cons c cs)
      with 1 have "tag_ins cs (?f cs)" by simp
      with None Cons show ?thesis
        by (simp add: re_sub.simps[of other_pattern fix_other_screenshots "c # cs"] tag_ins.Keep)
    qed
  next
    case (Some a)
    then obtain gs r where a: "match_items other_pattern s = Some (gs, r)" by (cases a) auto
    from match_items_concat[OF a] have c: "concat gs @ r = s" .
    have rep: "tag_ins (concat gs) (fix_other_screenshots gs)"
      unfolding fix_other_screenshots_def group0_def by (rule tag_ins_str_replace)
    show ?thesis
    proof (cases "length r < length s")
      case True
      with 1 have "tag_ins r (?f r)" by simp
      from tag_ins_append[OF rep this] c re_sub_hit[OF a True, of fix_other_screenshots]
      show ?thesis by simp
    next
      case False
      from c have "length (concat gs) + length r = length s" by (metis length_append)
      with False have "length (concat gs) = 0" by arith
      then have cg: "concat gs = []" by (simp only: length_0_conv)
      have "fix_other_screenshots gs
            = str_replace ''timestamp: now,'' ''timestamp: now,\<newline>        tags: vec![],'' (concat gs)"
        by (simp only: fix_other_screenshots_def group0_def)
      then have e1: "fix_other_screenshots gs = []" unfolding cg by simp
      have e2: "r = s" using c unfolding cg by simp
      note e = e1 e2
      show ?thesis
      proof (cases s)
        case Nil
        with a e show ?thesis
          by (simp add: re_sub.simps[of other_pattern fix_other_screenshots "[]"] tag_ins.Nil)
      next
        case (Cons c cs)
        with 1 have "tag_ins cs (?f cs)" by simp
        then show ?thesis using a e Cons
          by (simp add: re_sub.simps[of other_pattern fix_other_screenshots "c # cs"] tag_ins.Keep)
      qed
    qed
  qed
qed



subsection \<open>Counting through stage 3 and stage 4\<close>





















subsection \<open>Newline translation\<close>

lemma universal_newlines_id:
  "CHR 0x0D \<notin> set s \<Longrightarrow> universal_newlines s = s"
  by (induction s rule: universal_newlines.induct) auto

lemma write_newlines_lf: "write_newlines ''\<newline>'' s = s"
  unfolding write_newlines_def by (induction s) auto

subsection \<open>What a match consists of\<close>

lemma greedy_star_spaces:
  "greedy_star ok k s = Some (m, x) \<Longrightarrow> list_all ok m"
proof (induction s arbitrary: m)
  case Nil
  then show ?case by auto
next
  case (Cons c cs)
  show ?case
  proof (cases "ok c \<and> greedy_star ok k cs \<noteq> None")
    case True
    with Cons.prems obtain m' where m': "greedy_star ok k cs = Some (m', x)" "m = c # m'"
      by (auto split: option.splits)
    from Cons.IH[OF m'(1)] m'(2) True show ?thesis by auto
  next
    case False
    with Cons.prems show ?thesis by (auto split: if_splits option.splits)
  qed
qed

lemma match_Lit_E:
  "match_items (Lit l # ps) s = Some (gs, r)
   \<Longrightarrow> \<exists>gs'. gs = l # gs' \<and> match_items ps (drop (length l) s) = Some (gs', r)"
  by (auto split: if_splits)

lemma match_AnyLazy_E:
  "match_items (AnyLazy # ps) s = Some (gs, r)
   \<Longrightarrow> \<exists>m gs' t. gs = m # gs' \<and> s = m @ t \<and> match_items ps t = Some (gs', r)"
proof -
  assume "match_items (AnyLazy # ps) s = Some (gs, r)"
  then obtain m gs' where g: "lazy_star (\<lambda>c. True) (match_items ps) s = Some (m, gs', r)" "gs = m # gs'"
    by auto
  from lazy_star_sound[OF g(1)] g(2) show ?thesis by blast
qed

lemma match_SpaceStar_E:
  "match_items (SpaceStar # ps) s = Some (gs, r)
   \<Longrightarrow> \<exists>m gs' t. gs = m # gs' \<and> s = m @ t \<and> list_all is_space m \<and> match_items ps t = Some (gs', r)"
proof -
  assume "match_items (SpaceStar # ps) s = Some (gs, r)"
  then obtain m gs' where g: "greedy_star is_space (match_items ps) s = Some (m, gs', r)" "gs = m # gs'"
    by auto
  from greedy_star_sound[OF g(1)] greedy_star_spaces[OF g(1)] g(2) show ?thesis by blast
qed

lemma re_search_Some:
  "re_search p s = Some (pre, gs, r)
   \<Longrightarrow> \<exists>s'. s = pre @ s' \<and> match_items p s' = Some (gs, r) \<and> re_sub p f s = pre @ re_sub p f s'"
proof (induction s arbitrary: pre)
  case Nil
  then show ?case by auto
next
  case (Cons c cs)
  show ?case
  proof (cases "match_items p (c # cs)")
    case (Some m)
    with Cons.prems show ?thesis by auto
  next
    case None
    with Cons.prems obtain pre' where p: "re_search p cs = Some (pre', gs, r)" "pre = c # pre'"
      by auto
    from Cons.IH[OF p(1)] obtain s' where
      s': "cs = pre' @ s'" "match_items p s' = Some (gs, r)" "re_sub p f cs = pre' @ re_sub p f s'"
      by blast
    have "re_sub p f (c # cs) = c # re_sub p f cs"
      using None by (simp add: re_sub.simps[of p f "c # cs"])
    with s' p(2) show ?thesis by auto
  qed
qed

lemma inst_match_shape:
  assumes "match_items instantiation_pattern s = Some (gs, r)"
  shows "\<exists>f1 f2 w. gs = [''Screenshot {'', f1, ''filename,'', f2, ''timestamp,'', w, ''}'']
           \<and> list_all is_space w"
proof -
  from assms[unfolded instantiation_pattern_def] match_Lit_E obtain g1 s1 where
    1: "gs = ''Screenshot {'' # g1"
       "match_items [AnyLazy, Lit ''filename,'', AnyLazy, Lit ''timestamp,'', SpaceStar, Lit ''}''] s1 = Some (g1, r)"
    by blast
  from match_AnyLazy_E[OF 1(2)] obtain f1 g2 s2 where
    2: "g1 = f1 # g2"
       "match_items [Lit ''filename,'', AnyLazy, Lit ''timestamp,'', SpaceStar, Lit ''}''] s2 = Some (g2, r)"
    by blast
  from match_Lit_E[OF 2(2)] obtain g3 s3 where
    3: "g2 = ''filename,'' # g3"
       "match_items [AnyLazy, Lit ''timestamp,'', SpaceStar, Lit ''}''] s3 = Some (g3, r)"
    by blast
  from match_AnyLazy_E[OF 3(2)] obtain f2 g4 s4 where
    4: "g3 = f2 # g4"
       "match_items [Lit ''timestamp,'', SpaceStar, Lit ''}''] s4 = Some (g4, r)"
    by blast
  from match_Lit_E[OF 4(2)] obtain g5 s5 where
    5: "g4 = ''timestamp,'' # g5"
       "match_items [SpaceStar, Lit ''}''] s5 = Some (g5, r)"
    by blast
  from match_SpaceStar_E[OF 5(2)] obtain w g6 s6 where
    6: "g5 = w # g6" "list_all is_space w"
       "match_items [Lit ''}''] s6 = Some (g6, r)"
    by blast
  from match_Lit_E[OF 6(3)] have 7: "g6 = [''}'']" by auto
  from 1(1) 2(1) 3(1) 4(1) 5(1) 6(1,2) 7 show ?thesis by blast
qed

subsection \<open>Where a text cannot occur\<close>

lemma sublist_hd:
  assumes "w \<noteq> []" "hd w \<notin> set v"
  shows "sublist w (v @ y) \<longleftrightarrow> sublist w y"
  using assms(2)
proof (induction v)
  case Nil
  then show ?case by simp
next
  case (Cons c v)
  from Cons.prems assms(1) have "\<not> prefix w (c # (v @ y))" by (cases w) auto
  with Cons show ?case by (simp add: sublist_Cons_right)
qed

lemma sublist_last:
  assumes "w \<noteq> []" "last w \<notin> set v"
  shows "sublist w (x @ v) \<longleftrightarrow> sublist w x"
proof -
  have "sublist (rev w) (rev v @ rev x) \<longleftrightarrow> sublist (rev w) (rev x)"
    by (rule sublist_hd) (use assms in \<open>simp_all add: hd_rev\<close>)
  then show ?thesis by (metis rev_append sublist_rev)
qed

lemma sublist_piece: "\<not> sublist w (x @ y @ z) \<Longrightarrow> \<not> sublist w y"
  by (metis sublist_append)

lemma sublist_left: "\<not> sublist w (x @ y) \<Longrightarrow> \<not> sublist w x"
  by (metis sublist_append)

lemma sublist_right: "\<not> sublist w (x @ y) \<Longrightarrow> \<not> sublist w y"
  by (metis sublist_append)

lemma sublist_longer: "sublist (a @ b) s \<Longrightarrow> sublist a s"
  by (metis sublist_append_rightI sublist_order.order.trans)

lemma absent_sep:
  "c \<notin> set w \<Longrightarrow> w \<noteq> [] \<Longrightarrow> \<not> sublist w x \<Longrightarrow> \<not> sublist w y \<Longrightarrow> \<not> sublist w (x @ c # y)"
  by (simp add: sublist_sep)

lemma absent_split:
  assumes "c \<notin> set w" "w \<noteq> []" "last w \<notin> set v" "\<not> sublist w x" "\<not> sublist w y"
  shows "\<not> sublist w (x @ v @ c # y)"
proof -
  have "\<not> sublist w (x @ v)" using assms(2,3,4) by (simp add: sublist_last)
  from absent_sep[OF assms(1,2) this assms(5)] show ?thesis by simp
qed

text \<open>A text that occurs once occurs neither before nor after that place.\<close>

lemma occurrences_once:
  assumes "w \<noteq> []"
  shows "occurrences w (x @ w @ y) = 1
         \<Longrightarrow> \<not> sublist w (x @ butlast w) \<and> \<not> sublist w (tl w @ y)"
proof (induction x)
  case Nil
  from assms obtain c w' where w: "w = c # w'" by (cases w) auto
  with Nil have "occurrences w (w' @ y) = 0" by simp
  then have "\<not> sublist w (tl w @ y)" using w by (simp add: occurrences_0_iff)
  moreover have "\<not> sublist w (butlast w)"
  proof
    assume "sublist w (butlast w)"
    then have "length w \<le> length (butlast w)" by (rule sublist_length_le)
    then have "length w \<le> length w - 1" by (simp only: length_butlast)
    with assms show False by (cases w) simp_all
  qed
  ultimately show ?case by simp
next
  case (Cons c x)
  have "sublist w (x @ w @ y)" by simp
  then have "occurrences w (x @ w @ y) \<noteq> 0" by (simp add: occurrences_0_iff)
  with Cons.prems have p: "\<not> prefix w (c # x @ w @ y)" and o: "occurrences w (x @ w @ y) = 1"
    by (auto split: if_splits)
  from Cons.IH[OF o] have ih: "\<not> sublist w (x @ butlast w)" "\<not> sublist w (tl w @ y)" by simp_all
  have "\<not> prefix w (c # x @ butlast w)"
  proof
    assume "prefix w (c # x @ butlast w)"
    moreover have "prefix (c # x @ butlast w) (c # x @ w @ y)"
      by (simp add: prefixeq_butlast prefix_prefix)
    ultimately show False using p by (meson prefix_order.trans)
  qed
  with ih show ?case by (simp add: sublist_Cons_right)
qed

text \<open>A text with no newline is neither made nor moved by the lines stage 4 inserts.\<close>

lemma tag_ins_prefix_nl:
  "tag_ins s s' \<Longrightarrow> CHR ''\<newline>'' \<notin> set w \<Longrightarrow> prefix w s' \<Longrightarrow> prefix w s"
proof (induction arbitrary: w rule: tag_ins.induct)
  case Nil
  then show ?case by simp
next
  case (Keep s s' c)
  show ?case
  proof (cases w)
    case Nil
    then show ?thesis by simp
  next
    case (Cons d w')
    with Keep.prems have "CHR ''\<newline>'' \<notin> set w'" "d = c" "prefix w' s'" by simp_all
    with Keep.IH[of w'] Cons show ?thesis by simp
  qed
next
  case (Ins s s')
  let ?T = "''timestamp: now,''"
  from Ins.prems(2) have "prefix w (?T @ CHR ''\<newline>'' # (''        tags: vec![],'' @ s'))" by simp
  then have "prefix w ?T" by (simp only: prefix_sep[OF Ins.prems(1)])
  then show ?case by (rule prefix_prefix)
qed

lemma tag_ins_absent:
  assumes "CHR ''\<newline>'' \<notin> set w" "w \<noteq> []" "hd w \<notin> set ''        tags: vec![],''"
  shows "tag_ins s s' \<Longrightarrow> \<not> sublist w s \<Longrightarrow> \<not> sublist w s'"
proof (induction rule: tag_ins.induct)
  case Nil
  then show ?case by simp
next
  case (Keep s s' c)
  from Keep.prems have 1: "\<not> prefix w (c # s)" "\<not> sublist w s" by (simp_all add: sublist_Cons_right)
  from tag_ins_prefix_nl[OF tag_ins.Keep[OF Keep.hyps, of c] assms(1)] 1(1)
  have "\<not> prefix w (c # s')" by blast
  with Keep.IH[OF 1(2)] show ?case by (simp add: sublist_Cons_right)
next
  case (Ins s s')
  let ?T = "''timestamp: now,''"
  from Ins.prems have a: "\<not> sublist w ?T" "\<not> sublist w s" by (metis sublist_append)+
  from Ins.IH[OF a(2)] have b: "\<not> sublist w s'" .
  have "\<not> sublist w (''        tags: vec![],'' @ s')"
    using b by (simp only: sublist_hd[OF assms(2,3)] simp_thms)
  with a(1) have "\<not> sublist w (?T @ CHR ''\<newline>'' # (''        tags: vec![],'' @ s'))"
    by (rule absent_sep[OF assms(1,2)])
  then show ?case by simp
qed

lemma fix_instantiations_absent:
  assumes "CHR ''\<newline>'' \<notin> set w" "w \<noteq> []" "hd w \<notin> set ''        tags: vec![],''"
    and "\<not> sublist w (x @ s)"
  shows "\<not> sublist w (x @ fix_instantiations s)"
proof -
  have "tag_ins (x @ s) (x @ fix_instantiations s)"
    by (rule tag_ins_append[OF tag_ins_refl tag_ins_fix_instantiations])
  from tag_ins_absent[OF assms(1-3) this assms(4)] show ?thesis .
qed

section \<open>Claims\<close>

text \<open>
  C3. A buffer in which no stage finds its pattern (no match of the struct pattern, none of
  the \<^verbatim>\<open>get_screenshots\<close> pattern, no anchor for the new command, no match of the pattern of the
  other instantiations) comes out of the whole transformation unchanged. A run on a readable,
  writable file that is read as such a buffer returns normally, hence raises nothing, and
  writes that buffer back; what is on disk afterwards is the buffer with every line feed
  written as the line separator of the system, so it is the original file text when the file
  holds no carriage return and the line separator is the line feed, and it can differ from the
  original file only in its line endings.
\<close>

theorem no_pattern_unchanged:
  assumes "re_search struct_pattern buf = None"
    and "re_search get_screenshots_pattern buf = None"
    and "\<not> sublist anchor buf"
    and "re_search other_pattern buf = None"
  shows "transform buf = buf
    \<and> (\<forall>raw linesep. universal_newlines raw = buf \<longrightarrow>
          script linesep (Text raw) True = Inr (Text (write_newlines linesep buf)))
    \<and> (CHR 0x0D \<notin> set buf \<longrightarrow> script ''\<newline>'' (Text buf) True = Inr (Text buf))"
proof -
  have 1: "update_struct buf = buf"
    using assms(1) by (simp add: update_struct_def re_sub_none)
  have 2: "update_get_screenshots buf = buf"
    using assms(2) by (simp add: update_get_screenshots_def re_sub_none)
  have 3: "add_save_cmd buf = buf"
    using assms(3) by (simp add: add_save_cmd_def str_replace_none)
  have 4: "fix_instantiations buf = buf"
    using assms(4) by (simp add: fix_instantiations_def re_sub_none)
  have 5: "win_pass buf = buf"
    by (simp add: win_pass_def re_sub_group0)
  have t: "transform buf = buf"
    by (simp add: transform_def 1 2 3 4 5)
  have s: "script linesep (Text raw) True = Inr (Text (write_newlines linesep buf))"
    if "universal_newlines raw = buf" for raw linesep
    using that t by (simp add: script_def read_file_def write_file_def)
  have "script ''\<newline>'' (Text buf) True = Inr (Text buf)" if "CHR 0x0D \<notin> set buf"
    using s[OF universal_newlines_id[OF that], of "''\<newline>''"]
    by (simp only: write_newlines_lf)
  with t s show ?thesis by blast
qed

text \<open>
  The hypotheses hold for a file with none of the expected texts, stored with Windows line
  endings and rewritten on Windows, and for the same text stored and rewritten on POSIX.
\<close>

theorem no_pattern_unchanged_witness:
  "transform ''fn main() {}\<newline>'' = ''fn main() {}\<newline>''
   \<and> script [CHR 0x0D, CHR ''\<newline>''] (Text (''fn main() {}'' @ [CHR 0x0D, CHR ''\<newline>''])) True
       = Inr (Text (''fn main() {}'' @ [CHR 0x0D, CHR ''\<newline>'']))
   \<and> script ''\<newline>'' (Text ''fn main() {}\<newline>'') True = Inr (Text ''fn main() {}\<newline>'')"
proof -
  have 1: "re_search struct_pattern ''fn main() {}\<newline>'' = None" by code_simp
  have 2: "re_search get_screenshots_pattern ''fn main() {}\<newline>'' = None" by code_simp
  have 3: "\<not> sublist anchor ''fn main() {}\<newline>''" by code_simp
  have 4: "re_search other_pattern ''fn main() {}\<newline>'' = None" by code_simp
  have 5: "universal_newlines (''fn main() {}'' @ [CHR 0x0D, CHR ''\<newline>'']) = ''fn main() {}\<newline>''"
    by simp
  have 6: "write_newlines [CHR 0x0D, CHR ''\<newline>''] ''fn main() {}\<newline>''
           = ''fn main() {}'' @ [CHR 0x0D, CHR ''\<newline>'']"
    by (simp add: write_newlines_def)
  have 7: "CHR 0x0D \<notin> set ''fn main() {}\<newline>''" by simp
  from no_pattern_unchanged[OF 1 2 3 4] 5 6 7 show ?thesis by simp
qed

text \<open>
  C2. The claim is that a buffer containing a struct definition of the stated form gets
  exactly one new declaration, the rest being unchanged. It does not when the buffer holds
  two such definitions (one per module, say): \<^verbatim>\<open>re.sub\<close> replaces every match, so both
  definitions get the line and the buffer has two new declarations.
\<close>

theorem two_structs_two_declarations:
  "update_struct
     (''pub struct Screenshot {\<newline>    pub timestamp: u64,\<newline>}\<newline>'' @
      ''mod win {\<newline>pub struct Screenshot {\<newline>    pub timestamp: u64,\<newline>}\<newline>}\<newline>'')
   = ''pub struct Screenshot {\<newline>    pub timestamp: u64,\<newline>    pub tags: Vec<String>,\<newline>}\<newline>'' @
     ''mod win {\<newline>pub struct Screenshot {\<newline>    pub timestamp: u64,\<newline>    pub tags: Vec<String>,\<newline>}\<newline>}\<newline>''
   \<and> occurrences ''pub tags: Vec<String>,''
       (''pub struct Screenshot {\<newline>    pub timestamp: u64,\<newline>}\<newline>'' @
        ''mod win {\<newline>pub struct Screenshot {\<newline>    pub timestamp: u64,\<newline>}\<newline>}\<newline>'') = 0
   \<and> occurrences ''pub tags: Vec<String>,''
       (update_struct
          (''pub struct Screenshot {\<newline>    pub timestamp: u64,\<newline>}\<newline>'' @
           ''mod win {\<newline>pub struct Screenshot {\<newline>    pub timestamp: u64,\<newline>}\<newline>}\<newline>'')) = 2"
  by code_simp

text \<open>
  C2, as the code has it. Take a buffer cut as \<open>pre\<close>, \<^verbatim>\<open>pub struct Screenshot {\<close>, \<open>mid\<close>,
  \<^verbatim>\<open>pub timestamp: u64,\<close>, a newline and the closing brace, \<open>post\<close>, where the opening is the
  first \<^verbatim>\<open>pub struct Screenshot {\<close> of the buffer, the timestamp line with the newline and
  the brace is the first such ending after the opening, and \<open>post\<close> holds no further
  \<^verbatim>\<open>pub struct Screenshot {\<close>. Then stage 1 inserts the line \<^verbatim>\<open>    pub tags: Vec<String>,\<close>
  right after the timestamp line and before the closing brace, leaves every other part of
  the buffer as it was, and so adds exactly one occurrence of the new declaration.
\<close>

theorem struct_field_inserted:
  assumes "\<not> sublist ''pub struct Screenshot {'' (pre @ butlast ''pub struct Screenshot {'')"
    and "\<not> sublist (''pub timestamp: u64,'' @ ''\<newline>}'') (mid @ butlast (''pub timestamp: u64,'' @ ''\<newline>}''))"
    and "\<not> sublist ''pub struct Screenshot {'' post"
  shows "update_struct (pre @ ''pub struct Screenshot {'' @ mid @ ''pub timestamp: u64,'' @ ''\<newline>}'' @ post)
         = pre @ ''pub struct Screenshot {'' @ mid @ ''pub timestamp: u64,'' @
           ''\<newline>    pub tags: Vec<String>,'' @ ''\<newline>}'' @ post
       \<and> occurrences ''pub tags: Vec<String>,''
           (update_struct (pre @ ''pub struct Screenshot {'' @ mid @ ''pub timestamp: u64,'' @ ''\<newline>}'' @ post))
         = Suc (occurrences ''pub tags: Vec<String>,''
             (pre @ ''pub struct Screenshot {'' @ mid @ ''pub timestamp: u64,'' @ ''\<newline>}'' @ post))"
proof -
  let ?A = "''pub struct Screenshot {''" and ?B = "''pub timestamp: u64,''" and ?C = "''\<newline>}''"
  let ?W = "''pub tags: Vec<String>,''"
  let ?s = "?A @ mid @ ?B @ ?C @ post"
  have m: "match_items struct_pattern ?s = Some ([?A, mid, ?B, ?C], post)"
    by (rule struct_match[OF assms(2)])
  have "update_struct (pre @ ?s) = pre @ re_sub struct_pattern struct_repl ?s"
    unfolding update_struct_def struct_pattern_def by (rule re_sub_skip_lit[OF assms(1)])
  also have "re_sub struct_pattern struct_repl ?s
             = struct_repl [?A, mid, ?B, ?C] @ re_sub struct_pattern struct_repl post"
    by (rule re_sub_hit[OF m]) simp
  also have "re_sub struct_pattern struct_repl post = post"
    unfolding struct_pattern_def by (rule re_sub_no_lit[OF assms(3)])
  also have "struct_repl [?A, mid, ?B, ?C] = ?A @ mid @ ?B @ ''\<newline>    pub tags: Vec<String>,'' @ ?C"
    by (simp add: struct_repl_def items_text_def)
  finally have eq: "update_struct (pre @ ?s)
     = pre @ ?A @ mid @ ?B @ ''\<newline>    pub tags: Vec<String>,'' @ ?C @ post" by simp
  have nl: "CHR ''\<newline>'' \<notin> set ?W" "?W \<noteq> []" by simp_all
  let ?X = "pre @ ?A @ mid @ ?B"
  have "occurrences ?W (?X @ CHR ''\<newline>'' # (''    pub tags: Vec<String>,'' @ CHR ''\<newline>'' # (''}'' @ post)))
        = occurrences ?W ?X + (occurrences ?W ''    pub tags: Vec<String>,'' + occurrences ?W (''}'' @ post))"
    by (simp only: occurrences_sep[OF nl])
  moreover have "occurrences ?W ''    pub tags: Vec<String>,'' = 1" by code_simp
  moreover have "occurrences ?W (?X @ CHR ''\<newline>'' # (''}'' @ post))
        = occurrences ?W ?X + occurrences ?W (''}'' @ post)"
    by (simp only: occurrences_sep[OF nl])
  ultimately have "occurrences ?W (pre @ ?A @ mid @ ?B @ ''\<newline>    pub tags: Vec<String>,'' @ ?C @ post)
        = Suc (occurrences ?W (pre @ ?s))" by simp
  with eq show ?thesis by simp
qed

text \<open>A struct with three fields, between a derive line and a function.\<close>

theorem struct_field_inserted_witness:
  "update_struct
     (''#[derive(Serialize)]\<newline>'' @ ''pub struct Screenshot {'' @
      ''\<newline>    pub path: String,\<newline>    pub filename: String,\<newline>    '' @
      ''pub timestamp: u64,'' @ ''\<newline>}'' @ ''\<newline>\<newline>fn f() {}\<newline>'')
   = ''#[derive(Serialize)]\<newline>'' @ ''pub struct Screenshot {'' @
     ''\<newline>    pub path: String,\<newline>    pub filename: String,\<newline>    '' @
     ''pub timestamp: u64,'' @ ''\<newline>    pub tags: Vec<String>,'' @ ''\<newline>}'' @
     ''\<newline>\<newline>fn f() {}\<newline>''"
proof -
  have 1: "\<not> sublist ''pub struct Screenshot {''
             (''#[derive(Serialize)]\<newline>'' @ butlast ''pub struct Screenshot {'')"
    by code_simp
  have 2: "\<not> sublist (''pub timestamp: u64,'' @ ''\<newline>}'')
             (''\<newline>    pub path: String,\<newline>    pub filename: String,\<newline>    '' @
              butlast (''pub timestamp: u64,'' @ ''\<newline>}''))"
    by code_simp
  have 3: "\<not> sublist ''pub struct Screenshot {'' ''\<newline>\<newline>fn f() {}\<newline>''"
    by code_simp
  from struct_field_inserted[OF 1 2 3] show ?thesis by (rule conjunct1)
qed




text \<open>
  C6. The backfill of the other instantiations is not idempotent. A first run on an
  unpatched instantiation adds \<^verbatim>\<open>tags: vec![],\<close> after \<^verbatim>\<open>timestamp: now,\<close>; a run on
  that output adds the same line a second time at the same place.
\<close>

theorem backfill_not_idempotent:
  "transform
     (''fn capture() -> Result<Screenshot, String> {\<newline>'' @
      ''    Ok(Screenshot {\<newline>'' @
      ''        path: p,\<newline>'' @
      ''        filename: f,\<newline>'' @
      ''        timestamp: now,\<newline>'' @
      ''    })\<newline>'' @
      ''}\<newline>'')
   = ''fn capture() -> Result<Screenshot, String> {\<newline>'' @
     ''    Ok(Screenshot {\<newline>'' @
     ''        path: p,\<newline>'' @
     ''        filename: f,\<newline>'' @
     ''        timestamp: now,\<newline>'' @
     ''        tags: vec![],\<newline>'' @
     ''    })\<newline>'' @
     ''}\<newline>''
   \<and>
   transform
     (''fn capture() -> Result<Screenshot, String> {\<newline>'' @
      ''    Ok(Screenshot {\<newline>'' @
      ''        path: p,\<newline>'' @
      ''        filename: f,\<newline>'' @
      ''        timestamp: now,\<newline>'' @
      ''        tags: vec![],\<newline>'' @
      ''    })\<newline>'' @
      ''}\<newline>'')
   = ''fn capture() -> Result<Screenshot, String> {\<newline>'' @
     ''    Ok(Screenshot {\<newline>'' @
     ''        path: p,\<newline>'' @
     ''        filename: f,\<newline>'' @
     ''        timestamp: now,\<newline>'' @
     ''        tags: vec![],\<newline>'' @
     ''        tags: vec![],\<newline>'' @
     ''    })\<newline>'' @
     ''}\<newline>''"
  by code_simp



text \<open>
  C7. The claim is that the rewritten instantiation keeps every field value of the
  original one, the expression of \<^verbatim>\<open>path\<close> in particular. It does not: the replacement
  template spells out \<^verbatim>\<open>path: path_str\<close>. An instantiation written with
  \<^verbatim>\<open>path: full_path\<close> comes out with \<^verbatim>\<open>path: path_str\<close>, and \<^verbatim>\<open>full_path\<close> is gone.
\<close>

theorem path_expression_not_preserved:
  "update_get_screenshots
     (gs_header @
      ''\<newline>    Screenshot {\<newline>        path: full_path,\<newline>        filename,\<newline>        timestamp,\<newline>    }'' @
      ''\<newline>}'')
   = gs_header @
     ''\<newline>    let tags = all_tags.get(&filename).cloned().unwrap_or_default();\<newline>'' @
     ''            Screenshot {\<newline>'' @
     ''                path: path_str,\<newline>'' @
     ''                filename,\<newline>'' @
     ''                timestamp,\<newline>'' @
     ''                tags,\<newline>    }'' @
     ''\<newline>}''
   \<and> \<not> sublist ''full_path''
       (update_get_screenshots
          (gs_header @
           ''\<newline>    Screenshot {\<newline>        path: full_path,\<newline>        filename,\<newline>        timestamp,\<newline>    }'' @
           ''\<newline>}''))"
proof -
  let ?body = "''\<newline>    Screenshot {\<newline>        path: full_path,\<newline>        filename,\<newline>        timestamp,\<newline>    }''"
  let ?f1 = "''\<newline>        path: full_path,\<newline>        ''" and ?f2 = "''\<newline>        ''"
  let ?w = "''\<newline>    ''"
  have 1: "\<not> sublist gs_header ([] @ butlast gs_header)" by code_simp
  have 2: "\<not> sublist ''\<newline>}'' (?body @ ''\<newline>'')" by code_simp
  have g: "re_sub guard_pattern (\<lambda>gs. injection) ?body = ?body"
    by (rule guard_none) code_simp
  have b: "?body = ''\<newline>    '' @ construction_text ?f1 ?f2 ?w @ []"
    by (simp add: construction_text_def)
  have "re_sub instantiation_pattern instantiation_repl (''\<newline>    '' @ construction_text ?f1 ?f2 ?w @ [])
        = ''\<newline>    '' @ rewritten_construction ?w @ re_sub instantiation_pattern instantiation_repl []"
    by (rule inst_step') code_simp+
  also have "re_sub instantiation_pattern instantiation_repl [] = []"
    by (rule inst_none) simp
  finally have i: "re_sub instantiation_pattern instantiation_repl ?body
        = ''\<newline>    '' @ rewritten_construction ?w"
    using b by simp
  have e: "update_get_screenshots [] = []"
    by (simp add: update_get_screenshots_def re_sub.simps[of _ _ "[]"] get_screenshots_pattern_def)
  from gs_step[OF 1 2, of "[]"] have out: "update_get_screenshots (gs_header @ ?body @ ''\<newline>}'')
      = gs_header @
     ''\<newline>    let tags = all_tags.get(&filename).cloned().unwrap_or_default();\<newline>'' @
     ''            Screenshot {\<newline>'' @
     ''                path: path_str,\<newline>'' @
     ''                filename,\<newline>'' @
     ''                timestamp,\<newline>'' @
     ''                tags,\<newline>    }'' @
     ''\<newline>}''"
    unfolding g i e by (simp add: rewritten_construction_def)
  have "\<not> sublist ''full_path'' (gs_header @
     ''\<newline>    let tags = all_tags.get(&filename).cloned().unwrap_or_default();\<newline>'' @
     ''            Screenshot {\<newline>'' @
     ''                path: path_str,\<newline>'' @
     ''                filename,\<newline>'' @
     ''                timestamp,\<newline>'' @
     ''                tags,\<newline>    }'' @
     ''\<newline>}'')"
    by code_simp
  with out show ?thesis by (simp only: simp_thms)
qed

text \<open>
  C7, as the code has it. Wherever the second pass over the body finds a match of the
  instantiation pattern, whatever texts its two \<^verbatim>\<open>.*?\<close> had to span to reach a
  \<^verbatim>\<open>timestamp,\<close> that is followed by white space and the closing brace, the matched text is
  replaced by the lookup of the tags and an instantiation with the fixed fields
  \<^verbatim>\<open>path: path_str\<close>, \<^verbatim>\<open>filename\<close>, \<^verbatim>\<open>timestamp\<close> and \<^verbatim>\<open>tags\<close>. Of the matched text only the
  white space before the closing brace is kept; the texts \<open>f1\<close> and \<open>f2\<close> that stood before
  \<^verbatim>\<open>filename,\<close> and before \<^verbatim>\<open>timestamp,\<close> do not reach the result. The text before the
  match is copied and the text after it is rewritten in the same way.
\<close>

theorem construction_replaced_by_fixed_text:
  assumes "re_search instantiation_pattern body = Some (pre, gs, r)"
  shows "\<exists>f1 f2 w.
           gs = [''Screenshot {'', f1, ''filename,'', f2, ''timestamp,'', w, ''}'']
         \<and> list_all is_space w
         \<and> body = pre @ construction_text f1 f2 w @ r
         \<and> instantiation_repl gs = rewritten_construction w
         \<and> re_sub instantiation_pattern instantiation_repl body
             = pre @ rewritten_construction w @ re_sub instantiation_pattern instantiation_repl r"
proof -
  from re_search_Some[OF assms, of instantiation_repl] obtain s' where
    s': "body = pre @ s'" "match_items instantiation_pattern s' = Some (gs, r)"
        "re_sub instantiation_pattern instantiation_repl body
         = pre @ re_sub instantiation_pattern instantiation_repl s'"
    by blast
  from inst_match_shape[OF s'(2)] obtain f1 f2 w where
    g: "gs = [''Screenshot {'', f1, ''filename,'', f2, ''timestamp,'', w, ''}'']" "list_all is_space w"
    by blast
  from match_items_concat[OF s'(2)] g(1) have c: "s' = construction_text f1 f2 w @ r"
    by (simp add: construction_text_def)
  then have l: "length r < length s'" by (simp add: construction_text_def)
  have e: "instantiation_repl gs = rewritten_construction w"
    unfolding g(1) by (simp add: instantiation_repl_def rewritten_construction_def items_text_def)
  from re_sub_hit[OF s'(2) l, of instantiation_repl] e
  have "re_sub instantiation_pattern instantiation_repl s'
        = rewritten_construction w @ re_sub instantiation_pattern instantiation_repl r"
    by simp
  with s'(1,3) c g e show ?thesis by auto
qed

text \<open>
  Two statements, the first with a field after \<^verbatim>\<open>timestamp,\<close>: the match runs from the first
  \<^verbatim>\<open>Screenshot {\<close> to the closing brace of the second statement, and both are replaced by
  one rewritten instantiation.
\<close>

theorem construction_replaced_by_fixed_text_witness:
  "re_sub instantiation_pattern instantiation_repl
     ''a = Screenshot { filename, timestamp, x }; b = Screenshot { filename, timestamp, };''
   = ''a = '' @ rewritten_construction '' '' @ '';''"
proof -
  have 1: "re_search instantiation_pattern
             ''a = Screenshot { filename, timestamp, x }; b = Screenshot { filename, timestamp, };''
           = Some (''a = '',
                   [''Screenshot {'', '' '', ''filename,'',
                    '' timestamp, x }; b = Screenshot { filename, '', ''timestamp,'', '' '', ''}''],
                   '';'')"
    by code_simp
  have 2: "re_sub instantiation_pattern instantiation_repl '';'' = '';''"
    by (rule inst_none) code_simp
  from construction_replaced_by_fixed_text[OF 1] 2 show ?thesis by auto
qed

text \<open>
  C9. The claim is that the rewrite of the instantiation never alters the injected
  preamble. It can: a body with \<^verbatim>\<open>Screenshot {\<close> and \<^verbatim>\<open>filename,\<close> in a comment before the
  guard. The first pass puts the injection in the place of the guard; the match of the
  second pass then begins in the comment and ends at the closing brace of the real
  instantiation, and the replacement leaves nothing of the injection.
\<close>

theorem preamble_swallowed_by_construction_rewrite:
  "re_sub guard_pattern (\<lambda>gs. injection)
     (''\<newline>    // collect Screenshot { path, filename, timestamp } entries\<newline>    '' @
      guard_text ''\<newline>    '' ''\<newline>        '' ''\<newline>    '' @
      ''\<newline>    Ok(vec![Screenshot {\<newline>        path: path_str,\<newline>        filename,\<newline>        timestamp,\<newline>    }])'')
   = ''\<newline>    // collect Screenshot { path, filename, timestamp } entries\<newline>    '' @
     injection @
     ''\<newline>    Ok(vec![Screenshot {\<newline>        path: path_str,\<newline>        filename,\<newline>        timestamp,\<newline>    }])''
   \<and>
   re_sub instantiation_pattern instantiation_repl
     (''\<newline>    // collect Screenshot { path, filename, timestamp } entries\<newline>    '' @
      injection @
      ''\<newline>    Ok(vec![Screenshot {\<newline>        path: path_str,\<newline>        filename,\<newline>        timestamp,\<newline>    }])'')
   = ''\<newline>    // collect '' @ rewritten_construction ''\<newline>    '' @ ''])''"
proof -
  let ?c = "''\<newline>    // collect Screenshot { path, filename, timestamp } entries\<newline>    ''"
  let ?G = "guard_text ''\<newline>    '' ''\<newline>        '' ''\<newline>    ''"
  let ?r = "''\<newline>    Ok(vec![Screenshot {\<newline>        path: path_str,\<newline>        filename,\<newline>        timestamp,\<newline>    }])''"
  have g0: "\<not> sublist guard_head (?c @ butlast guard_head)" by code_simp
  have sp: "list_all is_space ''\<newline>    ''" "list_all is_space ''\<newline>        ''"
    by (simp_all add: is_space_def)
  have "re_sub guard_pattern (\<lambda>gs. injection) (?c @ ?G @ ?r)
        = ?c @ injection @ re_sub guard_pattern (\<lambda>gs. injection) ?r"
    by (rule guard_step'[OF g0 sp(1) sp(2) sp(1)])
  moreover have "re_sub guard_pattern (\<lambda>gs. injection) ?r = ?r"
    by (rule guard_none) code_simp
  ultimately have 1: "re_sub guard_pattern (\<lambda>gs. injection) (?c @ ?G @ ?r) = ?c @ injection @ ?r"
    by (simp only:)
  let ?pc = "''\<newline>    // collect ''" and ?f1 = "'' path, ''"
  let ?X = "'' timestamp } entries\<newline>    ''"
  let ?Y = "''\<newline>    Ok(vec![Screenshot {\<newline>        path: path_str,\<newline>        filename,\<newline>        ''"
  let ?w = "''\<newline>    ''"
  have T: "CHR ''\<newline>'' \<notin> set ''timestamp,''" "''timestamp,'' \<noteq> []" by simp_all
  have iT: "\<not> list_ex (sublist ''timestamp,'') (tl injection_lines)" by code_simp
  have "\<not> sublist ''timestamp,'' (?X @ injection @ (?Y @ butlast ''timestamp,''))"
    by (rule clean_around_injection(1)[OF T iT]) code_simp+
  then have f2: "\<not> sublist ''timestamp,'' ((?X @ injection @ ?Y) @ butlast ''timestamp,'')"
    by (simp only: append_assoc simp_thms)
  have c0: "\<not> sublist ''Screenshot {'' (?pc @ butlast ''Screenshot {'')" by code_simp
  have f1: "\<not> sublist ''filename,'' (?f1 @ butlast ''filename,'')" by code_simp
  have "re_sub instantiation_pattern instantiation_repl
          (?pc @ construction_text ?f1 (?X @ injection @ ?Y) ?w @ ''])'')
        = ?pc @ rewritten_construction ?w @ re_sub instantiation_pattern instantiation_repl ''])''"
    by (rule inst_step'[OF c0 f1 f2 sp(1)])
  moreover have "re_sub instantiation_pattern instantiation_repl ''])'' = ''])''"
    by (rule inst_none) code_simp
  moreover have "?pc @ construction_text ?f1 (?X @ injection @ ?Y) ?w @ ''])'' = ?c @ injection @ ?r"
    by (simp add: construction_text_def)
  ultimately have 2: "re_sub instantiation_pattern instantiation_repl (?c @ injection @ ?r)
        = ?pc @ rewritten_construction ?w @ ''])''"
    by (simp only:)
  from 1 2 show ?thesis by (simp only: simp_thms)
qed

text \<open>
  C9, as the code has it. The injection holds no match of the instantiation pattern, and
  the second pass copies an injection that stands after a text without \<^verbatim>\<open>Screenshot {\<close>
  unchanged, going on behind it; only a match that begins before the injection can
  take it away.
\<close>

theorem injection_not_rewritten:
  assumes "\<not> sublist ''Screenshot {'' b0"
  shows "re_search instantiation_pattern injection = None
       \<and> re_sub instantiation_pattern instantiation_repl (b0 @ injection @ q)
         = b0 @ injection @ re_sub instantiation_pattern instantiation_repl q"
proof -
  have "\<not> sublist ''Screenshot {'' ([] @ injection @ [])"
    by (rule clean_around_injection(1)[OF construction_nl no_construction_in_injection]) simp_all
  then have "\<not> sublist ''Screenshot {'' injection" by simp
  then have "re_search instantiation_pattern injection = None"
    unfolding instantiation_pattern_def by (rule re_search_NoneI)
  with inst_skips_injection[OF assms] show ?thesis by simp
qed

text \<open>The injection at the start of a body, before the instantiation.\<close>

theorem injection_not_rewritten_witness:
  "re_search instantiation_pattern injection = None
   \<and> re_sub instantiation_pattern instantiation_repl
       (''\<newline>    '' @ injection @
        ''\<newline>    Ok(vec![Screenshot {\<newline>        path: path_str,\<newline>        filename,\<newline>        timestamp,\<newline>    }])'')
     = ''\<newline>    '' @ injection @
       re_sub instantiation_pattern instantiation_repl
         ''\<newline>    Ok(vec![Screenshot {\<newline>        path: path_str,\<newline>        filename,\<newline>        timestamp,\<newline>    }])''"
proof -
  have 1: "\<not> sublist ''Screenshot {'' ''\<newline>    ''" by code_simp
  from injection_not_rewritten[OF 1] show ?thesis .
qed








end
